theory Spec2Isabelle
  imports Complex_Main "HOL-Library.Word"
begin

unbundle bit_operations_syntax

section \<open>The environment of a camera worker\<close>

text \<open>
  \<^verbatim>\<open>thread_cam.py\<close> drives a camera through the PyCapture2 binding and synchronises
  with its siblings through a \<^verbatim>\<open>multiprocessing.Barrier\<close> and a
  \<^verbatim>\<open>multiprocessing.Event\<close>. All of these are outside the file, so the model takes
  their answers as input: a worker runs against a list of \<open>world\<close>s, the \<open>k\<close>-th
  element being the state of the outside at the moment of the worker's \<open>k\<close>-th
  external call. Every external call consumes one element and is appended to the trace;
  \<^verbatim>\<open>print\<close> and \<^verbatim>\<open>time.sleep\<close> are appended to the trace without consuming one.
\<close>

type_synonym u32 = "32 word"

definition SOFTWARE_TRIGGER :: u32 where
  "SOFTWARE_TRIGGER = 0x62C"

definition FIRE_VALUE :: u32 where
  "FIRE_VALUE = 0x80000000"

text \<open>
  The exception classes the code tells apart: \<^verbatim>\<open>PyCapture2.Fc2error\<close>,
  \<^verbatim>\<open>multiprocessing.TimeoutError\<close>, \<^verbatim>\<open>threading.BrokenBarrierError\<close> (what the
  barrier of the standard library raises), and any other exception.
\<close>

datatype exn = Fc2error | TimeoutError | BrokenBarrierError | OtherException

text \<open>The external calls of the file, with their arguments.\<close>

datatype call =
    BusManager
  | Camera
  | GetEmbeddedImageInfo
  | SetEmbeddedImageInfo bool
  | GetCameraFromIndex nat
  | Connect nat
  | GetTriggerMode
  | SetTriggerMode bool nat
  | StartCapture
  | StopEventIsSet
  | ReadRegister u32
  | BarrierWait nat
  | WriteRegister u32 u32
  | RetrieveBuffer
  | GetTimeStamp
  | StopCapture
  | Disconnect

text \<open>The lines the file prints; the number is the camera index.\<close>

datatype message =
    TimeStampEnabled
  | TimeStampDisabled
  | StandingBy nat
  | Captured nat
  | CaptureError nat exn

text \<open>
  The trace of a worker: its external calls, its \<^verbatim>\<open>time.sleep(d)\<close> with \<open>d\<close> in seconds,
  and the lines it prints.
\<close>

datatype event = Call call | Sleep rat | Print message

text \<open>
  One moment of the outside: whether the stop event is set, which exception (if any) an
  external call made now raises, the value the trigger register holds, and whether the
  camera reports the embedded timestamp as available.
\<close>

record world =
  stop_set :: bool
  raises :: "call \<Rightarrow> exn option"
  register :: u32
  timestamp_available :: bool

text \<open>
  The outcome of a piece of code: it returned a value, it raised, or the worlds given ran
  out before it finished (it is still running).
\<close>

datatype 'a res = Val 'a | Exc exn | Pending

type_synonym st = "world list \<times> event list"

type_synonym 'a prog = "st \<Rightarrow> 'a res \<times> st"

subsection \<open>Python's control flow\<close>

definition return :: "'a \<Rightarrow> 'a prog" where
  "return a s = (Val a, s)"

definition bind :: "'a prog \<Rightarrow> ('a \<Rightarrow> 'b prog) \<Rightarrow> 'b prog" where
  "bind m f s =
     (case m s of
        (Val a, s') \<Rightarrow> f a s'
      | (Exc e, s') \<Rightarrow> (Exc e, s')
      | (Pending, s') \<Rightarrow> (Pending, s'))"

text \<open>\<^verbatim>\<open>try: m except E: h\<close>, the class \<open>E\<close> given as a predicate on exceptions.\<close>

definition try_except :: "'a prog \<Rightarrow> (exn \<Rightarrow> bool) \<Rightarrow> (exn \<Rightarrow> 'a prog) \<Rightarrow> 'a prog" where
  "try_except m catches h s =
     (case m s of
        (Exc e, s') \<Rightarrow> if catches e then h e s' else (Exc e, s')
      | (Val a, s') \<Rightarrow> (Val a, s')
      | (Pending, s') \<Rightarrow> (Pending, s'))"

text \<open>
  \<^verbatim>\<open>try: m finally: fin\<close>. The cleanup runs after a return and after a raise; an
  exception of the cleanup replaces the outcome of the body.
\<close>

definition try_finally :: "'a prog \<Rightarrow> unit prog \<Rightarrow> 'a prog" where
  "try_finally m fin s =
     (case m s of
        (Pending, s') \<Rightarrow> (Pending, s')
      | (r, s') \<Rightarrow>
          (case fin s' of
             (Val u, s'') \<Rightarrow> (r, s'')
           | (Exc e, s'') \<Rightarrow> (Exc e, s'')
           | (Pending, s'') \<Rightarrow> (Pending, s'')))"

subsection \<open>External calls\<close>

text \<open>An external call that returns what \<open>f\<close> reads from the world it meets.\<close>

definition ext_val :: "call \<Rightarrow> (world \<Rightarrow> 'a) \<Rightarrow> 'a prog" where
  "ext_val c f s =
     (case s of
        ([], tr) \<Rightarrow> (Pending, ([], tr))
      | (w # ws, tr) \<Rightarrow>
          (case raises w c of
             None \<Rightarrow> (Val (f w), (ws, tr @ [Call c]))
           | Some e \<Rightarrow> (Exc e, (ws, tr @ [Call c]))))"

definition ext :: "call \<Rightarrow> unit prog" where
  "ext c = ext_val c (\<lambda>w. ())"

definition print :: "message \<Rightarrow> unit prog" where
  "print m s = (Val (), (fst s, snd s @ [Print m]))"

definition sleep :: "rat \<Rightarrow> unit prog" where
  "sleep d s = (Val (), (fst s, snd s @ [Sleep d]))"

definition readRegister :: "u32 \<Rightarrow> u32 prog" where
  "readRegister a = ext_val (ReadRegister a) register"

definition stop_event_is_set :: "bool prog" where
  "stop_event_is_set = ext_val StopEventIsSet stop_set"

section \<open>The functions of the file\<close>

subsection \<open>\<^verbatim>\<open>poll_for_trigger_ready\<close>\<close>

lemma ext_val_shorter:
  "ext_val c f s = (Val v, s1) \<Longrightarrow> length (fst s1) < length (fst s)"
  by (cases s; cases "fst s") (auto simp: ext_val_def split: option.splits)

function poll_for_trigger_ready :: "unit prog" where
  "poll_for_trigger_ready s =
     (case readRegister SOFTWARE_TRIGGER s of
        (Val reg_val, s1) \<Rightarrow>
          if reg_val AND FIRE_VALUE = 0 then (Val (), s1)
          else poll_for_trigger_ready (snd (sleep (1 / 1000) s1))
      | (Exc e, s1) \<Rightarrow> (Exc e, s1)
      | (Pending, s1) \<Rightarrow> (Pending, s1))"
  by pat_completeness auto

termination
  by (relation "measure (\<lambda>s. length (fst s))")
     (auto simp: readRegister_def sleep_def dest: ext_val_shorter [OF sym])

declare poll_for_trigger_ready.simps [simp del]

subsection \<open>\<^verbatim>\<open>enable_embedded_timestamp\<close>\<close>

definition enable_embedded_timestamp :: "bool \<Rightarrow> unit prog" where
  "enable_embedded_timestamp enable_timestamp =
     bind (ext_val GetEmbeddedImageInfo timestamp_available) (\<lambda>available.
       if available then
         bind (ext (SetEmbeddedImageInfo enable_timestamp)) (\<lambda>_.
           if enable_timestamp then print TimeStampEnabled else print TimeStampDisabled)
       else return ())"

subsection \<open>\<^verbatim>\<open>CameraWorker.run\<close>\<close>

text \<open>
  Lines 61 to 64: \<^verbatim>\<open>try: self.barrier.wait(timeout=5)\<close> with
  \<^verbatim>\<open>except multiprocessing.TimeoutError: continue\<close>. The result says whether the
  iteration goes on or \<^verbatim>\<open>continue\<close> was executed.
\<close>

datatype flow = Proceed | Continue

definition wait_at_barrier :: "flow prog" where
  "wait_at_barrier =
     try_except (bind (ext (BarrierWait 5)) (\<lambda>_. return Proceed))
       (\<lambda>e. e = TimeoutError) (\<lambda>e. return Continue)"

text \<open>Lines 70 to 75: the retrieval, with its handler for \<^verbatim>\<open>PyCapture2.Fc2error\<close>.\<close>

definition retrieve_image :: "nat \<Rightarrow> unit prog" where
  "retrieve_image cam_index =
     try_except
       (bind (ext RetrieveBuffer) (\<lambda>_.
        bind (ext GetTimeStamp) (\<lambda>_.
        print (Captured cam_index))))
       (\<lambda>e. e = Fc2error) (\<lambda>e. print (CaptureError cam_index e))"

text \<open>Lines 56 to 75: one iteration of the \<^verbatim>\<open>while\<close> loop.\<close>

definition loop_body :: "nat \<Rightarrow> unit prog" where
  "loop_body cam_index =
     bind poll_for_trigger_ready (\<lambda>_.
     bind wait_at_barrier (\<lambda>flow.
       case flow of
         Continue \<Rightarrow> return ()
       | Proceed \<Rightarrow>
           bind (ext (WriteRegister SOFTWARE_TRIGGER FIRE_VALUE)) (\<lambda>_.
           retrieve_image cam_index)))"

text \<open>No piece of code gets worlds back: the list of worlds left never grows.\<close>

definition keeps :: "'a prog \<Rightarrow> bool" where
  "keeps m = (\<forall>s. length (fst (snd (m s))) \<le> length (fst s))"

lemma keeps_return: "keeps (return a)"
  by (simp add: keeps_def return_def)

lemma keeps_print: "keeps (print m)"
  by (simp add: keeps_def print_def)

lemma keeps_ext_val: "keeps (ext_val c f)"
  by (auto simp: keeps_def ext_val_def split: list.splits option.splits)

lemma keeps_ext: "keeps (ext c)"
  by (simp add: ext_def keeps_ext_val)

lemma keeps_bind:
  assumes "keeps m" and "\<And>a. keeps (f a)"
  shows "keeps (bind m f)"
proof -
  have "length (fst (snd (bind m f s))) \<le> length (fst s)" for s
  proof -
    obtain r s' where Pair: "m s = (r, s')"
      by (cases "m s")
    from assms(1) have le: "length (fst s') \<le> length (fst s)"
      using Pair by (metis keeps_def snd_conv)
    show ?thesis
    proof (cases r)
      case (Val a)
      from assms(2) [of a] have "length (fst (snd (f a s'))) \<le> length (fst s')"
        unfolding keeps_def by blast
      with le Pair Val show ?thesis by (simp add: bind_def)
    qed (use le Pair in \<open>simp_all add: bind_def\<close>)
  qed
  then show ?thesis by (simp add: keeps_def)
qed

lemma keeps_try_except:
  assumes "keeps m" and "\<And>e. keeps (h e)"
  shows "keeps (try_except m catches h)"
proof -
  have "length (fst (snd (try_except m catches h s))) \<le> length (fst s)" for s
  proof -
    obtain r s' where Pair: "m s = (r, s')"
      by (cases "m s")
    from assms(1) have le: "length (fst s') \<le> length (fst s)"
      using Pair by (metis keeps_def snd_conv)
    show ?thesis
    proof (cases r)
      case (Exc e)
      from assms(2) [of e] have "length (fst (snd (h e s'))) \<le> length (fst s')"
        unfolding keeps_def by blast
      with le Pair Exc show ?thesis by (simp add: try_except_def)
    qed (use le Pair in \<open>simp_all add: try_except_def\<close>)
  qed
  then show ?thesis by (simp add: keeps_def)
qed

lemma keeps_poll: "keeps poll_for_trigger_ready"
proof -
  have "length (fst (snd (poll_for_trigger_ready s))) \<le> length (fst s)" for s
  proof (induction s rule: poll_for_trigger_ready.induct)
    case (1 s)
    obtain r s1 where rd: "readRegister SOFTWARE_TRIGGER s = (r, s1)"
      by (cases "readRegister SOFTWARE_TRIGGER s")
    have le: "length (fst s1) \<le> length (fst s)"
      using keeps_ext_val [of "ReadRegister SOFTWARE_TRIGGER" register] rd
      by (metis keeps_def readRegister_def snd_conv)
    show ?case
    proof (cases r)
      case (Val v)
      show ?thesis
      proof (cases "v AND FIRE_VALUE = 0")
        case True
        with rd Val le show ?thesis
          by (subst poll_for_trigger_ready.simps) simp
      next
        case False
        have "length (fst (snd (poll_for_trigger_ready (snd (sleep (1 / 1000) s1)))))
                \<le> length (fst (snd (sleep (1 / 1000) s1)))"
          using "1.IH" [OF rd [symmetric] Val False] by simp
        with rd Val False le show ?thesis
          by (subst poll_for_trigger_ready.simps) (simp add: sleep_def)
      qed
    qed (use rd le in \<open>subst poll_for_trigger_ready.simps, simp\<close>)+
  qed
  then show ?thesis by (simp add: keeps_def)
qed

lemma keeps_wait_at_barrier: "keeps wait_at_barrier"
  unfolding wait_at_barrier_def
  by (intro keeps_try_except keeps_bind keeps_ext keeps_return)

lemma keeps_retrieve_image: "keeps (retrieve_image i)"
  unfolding retrieve_image_def
  by (intro keeps_try_except keeps_bind keeps_ext keeps_print)

lemma keeps_loop_body: "keeps (loop_body i)"
proof -
  have "keeps (case fl of Continue \<Rightarrow> return ()
          | Proceed \<Rightarrow> bind (ext (WriteRegister SOFTWARE_TRIGGER FIRE_VALUE))
              (\<lambda>_. retrieve_image i))" for fl
    by (cases fl) (auto intro: keeps_bind keeps_ext keeps_return keeps_retrieve_image)
  then show ?thesis
    unfolding loop_body_def
    by (intro keeps_bind keeps_poll keeps_wait_at_barrier)
qed

text \<open>Lines 55 to 75: the \<^verbatim>\<open>while not self.stop_event.is_set()\<close> loop.\<close>

function capture_loop :: "nat \<Rightarrow> unit prog" where
  "capture_loop cam_index s =
     (case stop_event_is_set s of
        (Val stop, s1) \<Rightarrow>
          if stop then (Val (), s1)
          else (case loop_body cam_index s1 of
                  (Val u, s2) \<Rightarrow> capture_loop cam_index s2
                | (Exc e, s2) \<Rightarrow> (Exc e, s2)
                | (Pending, s2) \<Rightarrow> (Pending, s2))
      | (Exc e, s1) \<Rightarrow> (Exc e, s1)
      | (Pending, s1) \<Rightarrow> (Pending, s1))"
  by pat_completeness auto

termination
proof (relation "measure (\<lambda>(i, s). length (fst s))")
  fix cam_index :: nat and s s1 s2 :: st and x1 stop x1a u
  assume a: "(x1, s1) = stop_event_is_set s" "x1 = Val stop" "\<not> stop"
    and b: "(x1a, s2) = loop_body cam_index s1" "x1a = Val u"
  from a have "length (fst s1) < length (fst s)"
    by (auto simp: stop_event_is_set_def dest: ext_val_shorter [OF sym])
  moreover from b have "length (fst s2) \<le> length (fst s1)"
    using keeps_loop_body [of cam_index] by (metis keeps_def snd_conv)
  ultimately show "((cam_index, s2), (cam_index, s)) \<in> measure (\<lambda>(i, s). length (fst s))"
    by simp
qed simp

declare capture_loop.simps [simp del]

text \<open>
  Lines 38 to 79: the worker. \<open>connect_and_configure\<close> is lines 44 to 53, \<open>try_body\<close>
  the block under \<^verbatim>\<open>try\<close>, \<open>cleanup\<close> the block under \<^verbatim>\<open>finally\<close>.
\<close>

definition connect_and_configure :: "nat \<Rightarrow> unit prog" where
  "connect_and_configure cam_index =
     bind (ext (GetCameraFromIndex cam_index)) (\<lambda>_.
     bind (ext (Connect cam_index)) (\<lambda>_.
     bind (ext GetTriggerMode) (\<lambda>_.
     bind (ext (SetTriggerMode True 7)) (\<lambda>_.
     bind (ext StartCapture) (\<lambda>_.
     print (StandingBy cam_index))))))"

definition try_body :: "nat \<Rightarrow> unit prog" where
  "try_body cam_index = bind (connect_and_configure cam_index) (\<lambda>_. capture_loop cam_index)"

definition cleanup :: "unit prog" where
  "cleanup = bind (ext StopCapture) (\<lambda>_. ext Disconnect)"

definition run :: "nat \<Rightarrow> unit prog" where
  "run cam_index =
     bind (ext BusManager) (\<lambda>_.
     bind (ext Camera) (\<lambda>_.
     bind (enable_embedded_timestamp True) (\<lambda>_.
     try_finally (try_body cam_index) cleanup)))"

text \<open>
  The worker from the top of its loop on: the rest of the \<^verbatim>\<open>try\<close> block, then the
  \<^verbatim>\<open>finally\<close> block. A worker whose \<open>startup\<close> has returned is there.
\<close>

definition worker_loop :: "nat \<Rightarrow> unit prog" where
  "worker_loop cam_index = try_finally (capture_loop cam_index) cleanup"

definition startup :: "nat \<Rightarrow> unit prog" where
  "startup cam_index =
     bind (ext BusManager) (\<lambda>_.
     bind (ext Camera) (\<lambda>_.
     bind (enable_embedded_timestamp True) (\<lambda>_.
     connect_and_configure cam_index)))"

text \<open>The \<^verbatim>\<open>finally\<close> block, entered with the outcome \<open>r\<close> of the \<^verbatim>\<open>try\<close> block.\<close>

definition shutdown :: "unit res \<Rightarrow> unit prog" where
  "shutdown r = try_finally (\<lambda>s. (r, s)) cleanup"

section \<open>The shared objects and the manager\<close>

text \<open>
  The barrier and the event are objects of Python's standard library. What a
  \<^verbatim>\<open>Barrier.wait(timeout)\<close> does is taken from \<^verbatim>\<open>threading.Barrier\<close>, which
  \<^verbatim>\<open>multiprocessing.Barrier\<close> inherits: on a broken barrier it raises
  \<^verbatim>\<open>BrokenBarrierError\<close> at once; otherwise it blocks until all parties have arrived
  (it returns), the timeout elapses (it breaks the barrier and raises
  \<^verbatim>\<open>BrokenBarrierError\<close>) or the barrier is aborted (it raises \<^verbatim>\<open>BrokenBarrierError\<close>).
  It never raises \<^verbatim>\<open>multiprocessing.TimeoutError\<close>. \<open>rendezvous\<close> says which of the three
  ends a wait that blocks.
\<close>

datatype rendezvous = AllArrived | TimedOut | Aborted

definition Barrier_wait :: "bool \<Rightarrow> rendezvous \<Rightarrow> exn option" where
  "Barrier_wait is_broken r =
     (if is_broken then Some BrokenBarrierError
      else case r of
             AllArrived \<Rightarrow> None
           | TimedOut \<Rightarrow> Some BrokenBarrierError
           | Aborted \<Rightarrow> Some BrokenBarrierError)"

text \<open>
  The world \<open>w\<close> with the barrier's answer to \<^verbatim>\<open>wait(timeout=5)\<close> put in.
\<close>

definition at_barrier :: "bool \<Rightarrow> rendezvous \<Rightarrow> world \<Rightarrow> world" where
  "at_barrier is_broken r w = w\<lparr>raises := (raises w)(BarrierWait 5 := Barrier_wait is_broken r)\<rparr>"

text \<open>
  The manager and its workers share the barrier and the event, so these live in a store
  and are held by reference. \<open>new_Barrier\<close> is \<^verbatim>\<open>multiprocessing.Barrier(n)\<close>,
  \<open>new_Event\<close> is \<^verbatim>\<open>multiprocessing.Event()\<close>; \<open>Event_set\<close>, \<open>Event_is_set\<close> and
  \<open>Barrier_abort\<close> are the methods the file calls.
\<close>

record barrier_obj =
  parties :: nat
  broken :: bool

record heap =
  barriers :: "nat \<rightharpoonup> barrier_obj"
  events :: "nat \<rightharpoonup> bool"
  fresh :: nat

definition new_Barrier :: "nat \<Rightarrow> heap \<Rightarrow> nat \<times> heap" where
  "new_Barrier n h =
     (fresh h, h\<lparr>barriers := (barriers h)(fresh h \<mapsto> \<lparr>parties = n, broken = False\<rparr>),
                 fresh := Suc (fresh h)\<rparr>)"

definition new_Event :: "heap \<Rightarrow> nat \<times> heap" where
  "new_Event h = (fresh h, h\<lparr>events := (events h)(fresh h \<mapsto> False), fresh := Suc (fresh h)\<rparr>)"

definition Event_set :: "nat \<Rightarrow> heap \<Rightarrow> heap" where
  "Event_set e h = h\<lparr>events := (events h)(e \<mapsto> True)\<rparr>"

definition Event_is_set :: "nat \<Rightarrow> heap \<Rightarrow> bool" where
  "Event_is_set e h = (events h e = Some True)"

definition Barrier_abort :: "nat \<Rightarrow> heap \<Rightarrow> heap" where
  "Barrier_abort b h =
     h\<lparr>barriers := (barriers h)(b := map_option (\<lambda>x. x\<lparr>broken := True\<rparr>) (barriers h b))\<rparr>"


text \<open>
  Lines 32 to 36 and 81 to 88: the fields of \<^verbatim>\<open>CameraWorker\<close> and \<^verbatim>\<open>CameraManager\<close>;
  the manager's fields \<^verbatim>\<open>barrier\<close> and \<^verbatim>\<open>stop_event\<close> are named \<open>mgr_barrier\<close> and
  \<open>mgr_stop_event\<close> here. A \<open>Process\<close> is a \<^verbatim>\<open>multiprocessing.Process\<close> whose target is
  the worker's \<^verbatim>\<open>run\<close>. \<open>CameraManager_init n\<close> is the constructor when
  \<^verbatim>\<open>getNumOfCameras\<close> returns \<open>n\<close>; the handle of the bus manager, which nothing
  reads later, is left out.
\<close>

record CameraWorker =
  cam_index :: nat
  barrier :: nat
  stop_event :: nat

record Process =
  target :: CameraWorker
  started :: bool

record CameraManager =
  num_cams :: nat
  mgr_barrier :: nat
  mgr_stop_event :: nat
  processes :: "Process list"

definition CameraManager_init :: "nat \<Rightarrow> heap \<Rightarrow> CameraManager \<times> heap" where
  "CameraManager_init n h =
     (let (b, h1) = new_Barrier n h;
          (e, h2) = new_Event h1
      in (\<lparr>num_cams = n, mgr_barrier = b, mgr_stop_event = e, processes = []\<rparr>, h2))"

text \<open>
  Lines 90 to 95: \<^verbatim>\<open>start\<close>, its loop over \<^verbatim>\<open>range(self.num_cams)\<close> as a recursion.
\<close>

fun start_loop :: "nat list \<Rightarrow> CameraManager \<Rightarrow> CameraManager" where
  "start_loop [] m = m"
| "start_loop (i # is) m =
     (let worker = \<lparr>cam_index = i, barrier = mgr_barrier m, stop_event = mgr_stop_event m\<rparr>;
          p = \<lparr>target = worker, started = False\<rparr>;
          p = p\<lparr>started := True\<rparr>
      in start_loop is (m\<lparr>processes := processes m @ [p]\<rparr>))"

definition start :: "CameraManager \<Rightarrow> CameraManager" where
  "start m = start_loop [0..<num_cams m] m"

text \<open>
  Lines 97 to 102: \<^verbatim>\<open>stop\<close>. \<open>signal_stop\<close> is its first two statements. A
  \<^verbatim>\<open>join\<close> returns once the process has terminated, by a return or by an exception;
  \<open>env k\<close> are the worlds the \<open>k\<close>-th process meets in its life, and a process that is
  still running when they are used up has not been joined (\<open>None\<close>).
\<close>

definition join :: "unit res \<times> st \<Rightarrow> unit option" where
  "join x = (case fst x of Pending \<Rightarrow> None | Val u \<Rightarrow> Some () | Exc e \<Rightarrow> Some ())"

fun join_all :: "(unit res \<times> st) list \<Rightarrow> unit option" where
  "join_all [] = Some ()"
| "join_all (x # xs) = (case join x of None \<Rightarrow> None | Some u \<Rightarrow> join_all xs)"

definition lifetimes :: "CameraManager \<Rightarrow> (nat \<Rightarrow> world list) \<Rightarrow> (unit res \<times> st) list" where
  "lifetimes m env =
     map (\<lambda>(k, p). run (cam_index (target p)) (env k, [])) (enumerate 0 (processes m))"

definition signal_stop :: "CameraManager \<Rightarrow> heap \<Rightarrow> heap" where
  "signal_stop m h = Barrier_abort (mgr_barrier m) (Event_set (mgr_stop_event m) h)"

definition stop :: "CameraManager \<Rightarrow> (nat \<Rightarrow> world list) \<Rightarrow> heap \<Rightarrow> heap option" where
  "stop m env h =
     (let h' = signal_stop m h
      in case join_all (lifetimes m env) of None \<Rightarrow> None | Some u \<Rightarrow> Some h')"


section \<open>Traces\<close>

text \<open>
  \<open>emits A m\<close>: whatever the state, \<open>m\<close> only appends to the trace, and every event it
  appends is in \<open>A\<close>.
\<close>

definition emits :: "event set \<Rightarrow> 'a prog \<Rightarrow> bool" where
  "emits A m = (\<forall>s. \<exists>evs. snd (snd (m s)) = snd s @ evs \<and> set evs \<subseteq> A)"

text \<open>
  The events of the capture loop of camera \<open>i\<close>.
\<close>

definition loop_events :: "nat \<Rightarrow> event set" where
  "loop_events i =
     {Call StopEventIsSet, Call (ReadRegister SOFTWARE_TRIGGER), Sleep (1 / 1000),
      Call (BarrierWait 5), Call (WriteRegister SOFTWARE_TRIGGER FIRE_VALUE),
      Call RetrieveBuffer, Call GetTimeStamp, Print (Captured i),
      Print (CaptureError i Fc2error)}"

text \<open>
  Two worlds agree when they differ at most in the stop event. A piece of code ignores
  the stop event when, run on two lists of worlds that agree one by one, it gives the same
  outcome and the same trace and leaves lists of worlds that agree again.
\<close>

definition agree :: "world \<Rightarrow> world \<Rightarrow> bool" where
  "agree w w' =
     (raises w = raises w' \<and> register w = register w' \<and>
      timestamp_available w = timestamp_available w')"

definition ignores_stop :: "'a prog \<Rightarrow> bool" where
  "ignores_stop m =
     (\<forall>ws ws' tr. list_all2 agree ws ws' \<longrightarrow>
        fst (m (ws, tr)) = fst (m (ws', tr)) \<and>
        snd (snd (m (ws, tr))) = snd (snd (m (ws', tr))) \<and>
        list_all2 agree (fst (snd (m (ws, tr)))) (fst (snd (m (ws', tr)))))"

section \<open>Sample worlds\<close>

text \<open>A world in which nothing is raised, the stop event is clear and the camera is ready.\<close>

definition quiet :: world where
  "quiet = \<lparr>stop_set = False, raises = (\<lambda>c. None), register = 0, timestamp_available = True\<rparr>"

text \<open>A world in which \<^verbatim>\<open>retrieveBuffer\<close> raises \<^verbatim>\<open>Fc2error\<close>.\<close>

definition retrieve_fails :: world where
  "retrieve_fails = quiet\<lparr>raises := (\<lambda>c. if c = RetrieveBuffer then Some Fc2error else None)\<rparr>"

text \<open>
  Worlds in which the fire command raises, in which the stop event is set, and in which
  the stop event is set and \<^verbatim>\<open>stopCapture\<close> raises.
\<close>

definition fire_fails :: world where
  "fire_fails =
     quiet\<lparr>raises := (\<lambda>c. if c = WriteRegister SOFTWARE_TRIGGER FIRE_VALUE
                           then Some Fc2error else None)\<rparr>"

definition stopped :: world where
  "stopped = quiet\<lparr>stop_set := True\<rparr>"

definition stop_capture_fails :: world where
  "stop_capture_fails =
     stopped\<lparr>raises := (\<lambda>c. if c = StopCapture then Some Fc2error else None)\<rparr>"

text \<open>
  A session with one camera: the manager constructed on the empty store and started, its
  worker, and two lives of that worker, both stopped at the first check of the stop event.
\<close>

definition empty_heap :: heap where
  "empty_heap = \<lparr>barriers = Map.empty, events = Map.empty, fresh = 0\<rparr>"

definition session1 :: "CameraManager \<times> heap" where
  "session1 = (case CameraManager_init 1 empty_heap of (m, h) \<Rightarrow> (start m, h))"

definition worker0 :: CameraWorker where
  "worker0 = \<lparr>cam_index = 0, barrier = 0, stop_event = 1\<rparr>"

definition clean_life :: "world list" where
  "clean_life = [quiet, quiet, quiet, quiet, quiet, quiet, quiet, quiet, quiet,
                 stopped, quiet, quiet]"

definition dirty_life :: "world list" where
  "dirty_life = [quiet, quiet, quiet, quiet, quiet, quiet, quiet, quiet, quiet,
                 stopped, stop_capture_fails, quiet]"

section \<open>Stepping through the code\<close>

lemma FIRE_VALUE_exp: "FIRE_VALUE = 2 ^ 31"
  by (simp add: FIRE_VALUE_def)

lemma fire_bit: "(v AND FIRE_VALUE = 0) = (\<not> bit v 31)" for v :: u32
  unfolding FIRE_VALUE_exp by (rule and_exp_eq_0_iff_not_bit)

lemma ext_val_Nil: "ext_val c f ([], tr) = (Pending, ([], tr))"
  by (simp add: ext_val_def)

lemma ext_val_Cons:
  "ext_val c f (w # ws, tr) =
     (case raises w c of None \<Rightarrow> Val (f w) | Some e \<Rightarrow> Exc e, (ws, tr @ [Call c]))"
  by (simp add: ext_val_def split: option.splits)

lemma ext_Nil: "ext c ([], tr) = (Pending, ([], tr))"
  by (simp add: ext_def ext_val_Nil)

lemma ext_Cons:
  "ext c (w # ws, tr) =
     (case raises w c of None \<Rightarrow> Val () | Some e \<Rightarrow> Exc e, (ws, tr @ [Call c]))"
  by (simp add: ext_def ext_val_Cons)

lemma bind_Val: "m s = (Val a, s') \<Longrightarrow> bind m f s = f a s'"
  by (simp add: bind_def)

lemma bind_Exc: "m s = (Exc e, s') \<Longrightarrow> bind m f s = (Exc e, s')"
  by (simp add: bind_def)

lemma bind_Pending: "m s = (Pending, s') \<Longrightarrow> bind m f s = (Pending, s')"
  by (simp add: bind_def)

lemma bind_assoc: "bind (bind m f) g = bind m (\<lambda>a. bind (f a) g)"
  by (rule ext) (simp add: bind_def split: prod.splits res.splits)

lemma poll_Nil: "poll_for_trigger_ready ([], tr) = (Pending, ([], tr))"
  by (subst poll_for_trigger_ready.simps) (simp add: readRegister_def ext_val_Nil)

lemma poll_Cons:
  "poll_for_trigger_ready (w # ws, tr) =
     (case raises w (ReadRegister SOFTWARE_TRIGGER) of
        Some e \<Rightarrow> (Exc e, (ws, tr @ [Call (ReadRegister SOFTWARE_TRIGGER)]))
      | None \<Rightarrow>
          if bit (register w) 31
          then poll_for_trigger_ready
                 (ws, tr @ [Call (ReadRegister SOFTWARE_TRIGGER), Sleep (1 / 1000)])
          else (Val (), (ws, tr @ [Call (ReadRegister SOFTWARE_TRIGGER)])))"
  by (subst poll_for_trigger_ready.simps)
     (simp add: readRegister_def ext_val_Cons sleep_def fire_bit split: option.splits)

lemma poll_busy_prefix:
  assumes "\<forall>x \<in> set pre. bit (register x) 31 \<and> raises x (ReadRegister SOFTWARE_TRIGGER) = None"
  shows "poll_for_trigger_ready (pre @ rest, tr) =
           poll_for_trigger_ready
             (rest, tr @ concat (map (\<lambda>x. [Call (ReadRegister SOFTWARE_TRIGGER), Sleep (1 / 1000)]) pre))"
  using assms
proof (induction pre arbitrary: tr)
  case Nil
  then show ?case by simp
next
  case (Cons x pre)
  then show ?case by (simp add: poll_Cons)
qed

lemma bind_Val_iff:
  "bind m f s = (Val b, s') \<longleftrightarrow> (\<exists>a s1. m s = (Val a, s1) \<and> f a s1 = (Val b, s'))"
  by (auto simp: bind_def split: prod.splits res.splits)

lemma run_after_startup:
  assumes "startup i s0 = (Val (), s)"
  shows "run i s0 = worker_loop i s"
proof -
  from assms obtain s1 s2 s3 where
    a: "ext BusManager s0 = (Val (), s1)" and b: "ext Camera s1 = (Val (), s2)"
    and c: "enable_embedded_timestamp True s2 = (Val (), s3)"
    and d: "connect_and_configure i s3 = (Val (), s)"
    unfolding startup_def bind_Val_iff by auto
  show ?thesis
    using a b c d
    by (simp add: run_def worker_loop_def try_body_def bind_def try_finally_def)
qed

section \<open>What a piece of code adds to the trace\<close>

lemma emitsI:
  assumes "\<And>s. \<exists>evs. snd (snd (m s)) = snd s @ evs \<and> set evs \<subseteq> A"
  shows "emits A m"
  using assms by (simp add: emits_def)

lemma emitsD:
  assumes "emits A m" and "m s = (r, s')"
  obtains evs where "snd s' = snd s @ evs" and "set evs \<subseteq> A"
  using assms unfolding emits_def by (metis snd_conv)

lemma emits_return: "emits A (return a)"
  by (simp add: emits_def return_def)

lemma emits_print: "Print m \<in> A \<Longrightarrow> emits A (print m)"
  by (simp add: emits_def print_def)

lemma emits_sleep: "Sleep d \<in> A \<Longrightarrow> emits A (sleep d)"
  by (simp add: emits_def sleep_def)

lemma emits_ext_val: "Call c \<in> A \<Longrightarrow> emits A (ext_val c f)"
proof (rule emitsI)
  fix s :: st
  assume "Call c \<in> A"
  then show "\<exists>evs. snd (snd (ext_val c f s)) = snd s @ evs \<and> set evs \<subseteq> A"
    by (cases s; cases "fst s") (auto simp: ext_val_def split: option.splits)
qed

lemma emits_ext: "Call c \<in> A \<Longrightarrow> emits A (ext c)"
  by (simp add: ext_def emits_ext_val)

lemma emits_bind:
  assumes "emits A m" and "\<And>a. emits A (f a)"
  shows "emits A (bind m f)"
proof (rule emitsI)
  fix s
  obtain r s' where ms: "m s = (r, s')"
    by (cases "m s")
  from emitsD [OF assms(1) ms] obtain evs where
    evs: "snd s' = snd s @ evs" "set evs \<subseteq> A" .
  show "\<exists>evs. snd (snd (bind m f s)) = snd s @ evs \<and> set evs \<subseteq> A"
  proof (cases r)
    case (Val a)
    obtain r2 s2 where fs: "f a s' = (r2, s2)"
      by (cases "f a s'")
    from emitsD [OF assms(2) fs] obtain evs2 where
      "snd s2 = snd s' @ evs2" "set evs2 \<subseteq> A" .
    with evs have "snd s2 = snd s @ (evs @ evs2) \<and> set (evs @ evs2) \<subseteq> A"
      by simp
    moreover have "bind m f s = (r2, s2)"
      using ms Val fs by (simp add: bind_def)
    ultimately show ?thesis
      by (intro exI [of _ "evs @ evs2"]) simp
  qed (use ms evs in \<open>auto simp: bind_def\<close>)
qed

lemma emits_try_except:
  assumes "emits A m" and "\<And>e. catches e \<Longrightarrow> emits A (h e)"
  shows "emits A (try_except m catches h)"
proof (rule emitsI)
  fix s
  obtain r s' where ms: "m s = (r, s')"
    by (cases "m s")
  from emitsD [OF assms(1) ms] obtain evs where
    evs: "snd s' = snd s @ evs" "set evs \<subseteq> A" .
  show "\<exists>evs. snd (snd (try_except m catches h s)) = snd s @ evs \<and> set evs \<subseteq> A"
  proof (cases r)
    case (Exc e)
    show ?thesis
    proof (cases "catches e")
      case True
      obtain r2 s2 where hs: "h e s' = (r2, s2)"
        by (cases "h e s'")
      from emitsD [OF assms(2) [OF True] hs] obtain evs2 where
        "snd s2 = snd s' @ evs2" "set evs2 \<subseteq> A" .
      with evs have "snd s2 = snd s @ (evs @ evs2) \<and> set (evs @ evs2) \<subseteq> A"
        by simp
      moreover have "try_except m catches h s = (r2, s2)"
        using ms Exc hs True by (simp add: try_except_def)
      ultimately show ?thesis
        by (intro exI [of _ "evs @ evs2"]) simp
    qed (use ms evs Exc in \<open>auto simp: try_except_def\<close>)
  qed (use ms evs in \<open>auto simp: try_except_def\<close>)
qed

lemma emits_poll:
  assumes "Call (ReadRegister SOFTWARE_TRIGGER) \<in> A" and "Sleep (1 / 1000) \<in> A"
  shows "emits A poll_for_trigger_ready"
proof (rule emitsI)
  fix s :: st
  obtain ws tr where s: "s = (ws, tr)"
    by (cases s)
  have "\<exists>evs. snd (snd (poll_for_trigger_ready (ws, tr))) = tr @ evs \<and> set evs \<subseteq> A"
  proof (induction ws arbitrary: tr)
    case Nil
    show ?case by (simp add: poll_Nil)
  next
    case (Cons w ws)
    from Cons.IH [of "tr @ [Call (ReadRegister SOFTWARE_TRIGGER), Sleep (1 / 1000)]"]
    obtain evs where
      "snd (snd (poll_for_trigger_ready
         (ws, tr @ [Call (ReadRegister SOFTWARE_TRIGGER), Sleep (1 / 1000)]))) =
       tr @ ([Call (ReadRegister SOFTWARE_TRIGGER), Sleep (1 / 1000)] @ evs)"
      and "set evs \<subseteq> A"
      by auto
    with assms have "\<exists>evs. snd (snd (poll_for_trigger_ready
         (ws, tr @ [Call (ReadRegister SOFTWARE_TRIGGER), Sleep (1 / 1000)]))) = tr @ evs
         \<and> set evs \<subseteq> A"
      by (intro exI [of _ "[Call (ReadRegister SOFTWARE_TRIGGER), Sleep (1 / 1000)] @ evs"]) simp
    with assms show ?case
      by (auto simp: poll_Cons split: option.splits)
  qed
  with s show "\<exists>evs. snd (snd (poll_for_trigger_ready s)) = snd s @ evs \<and> set evs \<subseteq> A"
    by simp
qed

lemma emits_wait_at_barrier: "emits (loop_events i) wait_at_barrier"
  unfolding wait_at_barrier_def
  by (intro emits_try_except emits_bind emits_ext emits_return) (simp add: loop_events_def)

lemma emits_retrieve_image: "emits (loop_events i) (retrieve_image i)"
  unfolding retrieve_image_def
  by (intro emits_try_except emits_bind emits_ext emits_print) (simp_all add: loop_events_def)

lemma emits_loop_body: "emits (loop_events i) (loop_body i)"
proof -
  have "emits (loop_events i) (case fl of Continue \<Rightarrow> return ()
          | Proceed \<Rightarrow> bind (ext (WriteRegister SOFTWARE_TRIGGER FIRE_VALUE))
              (\<lambda>_. retrieve_image i))" for fl
  proof (cases fl)
    case Proceed
    have "Call (WriteRegister SOFTWARE_TRIGGER FIRE_VALUE) \<in> loop_events i"
      by (simp add: loop_events_def)
    with Proceed show ?thesis
      by (simp add: emits_bind emits_ext emits_retrieve_image)
  next
    case Continue
    then show ?thesis by (simp add: emits_return)
  qed
  then show ?thesis
    unfolding loop_body_def
    by (intro emits_bind emits_poll emits_wait_at_barrier) (simp_all add: loop_events_def)
qed

lemma emits_capture_loop: "emits (loop_events i) (capture_loop i)"
proof (rule emitsI)
  fix s :: st
  show "\<exists>evs. snd (snd (capture_loop i s)) = snd s @ evs \<and> set evs \<subseteq> loop_events i"
  proof (induction i s rule: capture_loop.induct)
    case (1 i s)
    obtain r s1 where st: "stop_event_is_set s = (r, s1)"
      by (cases "stop_event_is_set s")
    have "emits (loop_events i) stop_event_is_set"
      by (simp add: stop_event_is_set_def emits_ext_val loop_events_def)
    from emitsD [OF this st] obtain evs1 where
      e1: "snd s1 = snd s @ evs1" "set evs1 \<subseteq> loop_events i" .
    show ?case
    proof (cases r)
      case (Val stop)
      show ?thesis
      proof (cases stop)
        case True
        with st Val e1 show ?thesis
          by (subst capture_loop.simps) simp
      next
        case False
        obtain r2 s2 where lb: "loop_body i s1 = (r2, s2)"
          by (cases "loop_body i s1")
        from emitsD [OF emits_loop_body lb] obtain evs2 where
          e2: "snd s2 = snd s1 @ evs2" "set evs2 \<subseteq> loop_events i" .
        show ?thesis
        proof (cases r2)
          case (Val u)
          from "1.IH" [OF st [symmetric] \<open>r = Val stop\<close> False lb [symmetric] Val]
          obtain evs3 where
            "snd (snd (capture_loop i s2)) = snd s2 @ evs3" "set evs3 \<subseteq> loop_events i"
            by auto
          with e1 e2 have "snd (snd (capture_loop i s2)) = snd s @ (evs1 @ evs2 @ evs3)
              \<and> set (evs1 @ evs2 @ evs3) \<subseteq> loop_events i"
            by simp
          moreover have "capture_loop i s = capture_loop i s2"
            using st \<open>r = Val stop\<close> False lb Val by (subst capture_loop.simps) simp
          ultimately show ?thesis
            by (intro exI [of _ "evs1 @ evs2 @ evs3"]) simp
        next
          case (Exc e)
          have "capture_loop i s = (Exc e, s2)"
            using st \<open>r = Val stop\<close> False lb Exc by (subst capture_loop.simps) simp
          with e1 e2 show ?thesis
            by (intro exI [of _ "evs1 @ evs2"]) simp
        next
          case Pending
          have "capture_loop i s = (Pending, s2)"
            using st \<open>r = Val stop\<close> False lb Pending by (subst capture_loop.simps) simp
          with e1 e2 show ?thesis
            by (intro exI [of _ "evs1 @ evs2"]) simp
        qed
      qed
    next
      case (Exc e)
      with st e1 show ?thesis
        by (subst capture_loop.simps) simp
    next
      case Pending
      with st e1 show ?thesis
        by (subst capture_loop.simps) simp
    qed
  qed
qed

lemma emits_enable_embedded_timestamp:
  "emits {Call GetEmbeddedImageInfo, Call (SetEmbeddedImageInfo b),
          Print TimeStampEnabled, Print TimeStampDisabled} (enable_embedded_timestamp b)"
  unfolding enable_embedded_timestamp_def
  by (intro emits_bind emits_ext_val emits_ext)
     (simp_all add: emits_print emits_return emits_bind emits_ext)

lemma fire_follows_poll_and_wait:
  assumes "loop_body i s = (r, (ws', tr'))"
    and "Call (WriteRegister SOFTWARE_TRIGGER FIRE_VALUE) \<in> set (drop (length (snd s)) tr')"
  shows "\<exists>s2 ws3 tr3 post.
           poll_for_trigger_ready s = (Val (), s2) \<and>
           wait_at_barrier s2 = (Val Proceed, (ws3, tr3)) \<and>
           tr' = tr3 @ Call (WriteRegister SOFTWARE_TRIGGER FIRE_VALUE) # post"
proof -
  let ?A = "loop_events i - {Call (WriteRegister SOFTWARE_TRIGGER FIRE_VALUE)}"
  have pollA: "emits ?A poll_for_trigger_ready"
    by (rule emits_poll) (simp_all add: loop_events_def)
  have waitA: "emits ?A wait_at_barrier"
    unfolding wait_at_barrier_def
    by (intro emits_try_except emits_bind emits_ext emits_return) (simp add: loop_events_def)
  obtain r1 s2 where p: "poll_for_trigger_ready s = (r1, s2)"
    by (cases "poll_for_trigger_ready s")
  from emitsD [OF pollA p] obtain evs1 where e1: "snd s2 = snd s @ evs1" "set evs1 \<subseteq> ?A" .
  show ?thesis
  proof (cases r1)
    case (Val u)
    obtain r2 s3 where w: "wait_at_barrier s2 = (r2, s3)"
      by (cases "wait_at_barrier s2")
    from emitsD [OF waitA w] obtain evs2 where e2: "snd s3 = snd s2 @ evs2" "set evs2 \<subseteq> ?A" .
    show ?thesis
    proof (cases r2)
      case (Val fl)
      show ?thesis
      proof (cases fl)
        case Proceed
        obtain ws3 tr3 where s3: "s3 = (ws3, tr3)"
          by (cases s3)
        have body: "loop_body i s =
            bind (ext (WriteRegister SOFTWARE_TRIGGER FIRE_VALUE)) (\<lambda>_. retrieve_image i) (ws3, tr3)"
          using p \<open>r1 = Val u\<close> w Val Proceed s3 by (simp add: loop_body_def bind_def)
        show ?thesis
        proof (cases ws3)
          case Nil
          with body assms(1) have "tr' = tr3"
            by (simp add: bind_def ext_Nil)
          with e1 e2 s3 assms(2) show ?thesis by auto
        next
          case (Cons w3 ws4)
          obtain r4 s4 where f: "ext (WriteRegister SOFTWARE_TRIGGER FIRE_VALUE) (ws3, tr3) = (r4, s4)"
            by (cases "ext (WriteRegister SOFTWARE_TRIGGER FIRE_VALUE) (ws3, tr3)")
          with Cons have s4: "snd s4 = tr3 @ [Call (WriteRegister SOFTWARE_TRIGGER FIRE_VALUE)]"
            by (auto simp: ext_Cons)
          have "\<exists>post. tr' = tr3 @ Call (WriteRegister SOFTWARE_TRIGGER FIRE_VALUE) # post"
          proof (cases r4)
            case (Val u4)
            obtain r5 s5 where ri: "retrieve_image i s4 = (r5, s5)"
              by (cases "retrieve_image i s4")
            from emitsD [OF emits_retrieve_image ri] obtain evs5 where
              "snd s5 = snd s4 @ evs5" by blast
            moreover have "loop_body i s = (r5, s5)"
              using body f Val ri by (simp add: bind_def)
            ultimately show ?thesis
              using assms(1) s4 by auto
          qed (use body f s4 assms(1) in \<open>auto simp: bind_def\<close>)
          with p \<open>r1 = Val u\<close> w Val Proceed s3 show ?thesis by auto
        qed
      next
        case Continue
        with p \<open>r1 = Val u\<close> w Val assms(1) have "tr' = snd s3"
          by (simp add: loop_body_def bind_def return_def)
        with e1 e2 assms(2) show ?thesis by auto
      qed
    qed (use p \<open>r1 = Val u\<close> w e1 e2 assms in \<open>auto simp: loop_body_def bind_def\<close>)
  qed (use p e1 assms in \<open>auto simp: loop_body_def bind_def\<close>)
qed

section \<open>The readiness poller\<close>

text \<open>
  C9. Whatever register values the camera reports, the poller reads the register anew in
  every iteration (one \<^verbatim>\<open>readRegister\<close> per observation, nothing kept from the one
  before), sleeps 0.001 s after every observation that has bit 31 set, and returns at the
  first observation that has bit 31 clear, leaving the worlds after it untouched.
\<close>

theorem poll_returns_at_first_ready:
  assumes "\<forall>x \<in> set pre. bit (register x) 31 \<and> raises x (ReadRegister SOFTWARE_TRIGGER) = None"
    and "\<not> bit (register w) 31"
    and "raises w (ReadRegister SOFTWARE_TRIGGER) = None"
  shows "poll_for_trigger_ready (pre @ w # rest, tr) =
           (Val (), (rest,
              tr @ concat (map (\<lambda>x. [Call (ReadRegister SOFTWARE_TRIGGER), Sleep (1 / 1000)]) pre)
                 @ [Call (ReadRegister SOFTWARE_TRIGGER)]))"
  using assms by (simp add: poll_busy_prefix poll_Cons)

theorem poll_returns_at_first_ready_witness:
  "poll_for_trigger_ready
     ([quiet\<lparr>register := 0x80000000\<rparr>, quiet\<lparr>register := 0x8000062C\<rparr>,
       quiet\<lparr>register := 0x7FFFFFFF\<rparr>, quiet\<lparr>register := 0x80000000\<rparr>], []) =
   (Val (), ([quiet\<lparr>register := 0x80000000\<rparr>],
      [Call (ReadRegister SOFTWARE_TRIGGER), Sleep (1 / 1000),
       Call (ReadRegister SOFTWARE_TRIGGER), Sleep (1 / 1000),
       Call (ReadRegister SOFTWARE_TRIGGER)]))"
  using poll_returns_at_first_ready
    [of "[quiet\<lparr>register := 0x80000000\<rparr>, quiet\<lparr>register := 0x8000062C\<rparr>]"
        "quiet\<lparr>register := 0x7FFFFFFF\<rparr>" "[quiet\<lparr>register := 0x80000000\<rparr>]" "[]"]
  by (simp add: quiet_def)

section \<open>The embedded timestamp\<close>

text \<open>
  C10. The worker calls \<^verbatim>\<open>enable_embedded_timestamp\<close> right after constructing the bus
  manager and the camera, before the \<^verbatim>\<open>try\<close> block, whose first calls look the camera
  up and connect it: the block starts from the state the timestamp call returns. When the
  timestamp call raises, the worker ends with that exception in that very state, having
  called neither \<^verbatim>\<open>connect\<close> nor \<^verbatim>\<open>stopCapture\<close> nor \<^verbatim>\<open>disconnect\<close>.
\<close>

theorem timestamp_call_outside_try:
  assumes "raises w0 BusManager = None" and "raises w1 Camera = None"
    and "enable_embedded_timestamp True (ws, tr @ [Call BusManager, Call Camera]) = (r, s)"
  shows "(case r of
            Val u \<Rightarrow> run i (w0 # w1 # ws, tr) = try_finally (try_body i) cleanup s
          | Exc e \<Rightarrow>
              run i (w0 # w1 # ws, tr) = (Exc e, s) \<and>
              (\<exists>evs. snd s = tr @ [Call BusManager, Call Camera] @ evs \<and>
                 Call (Connect i) \<notin> set evs \<and> Call StopCapture \<notin> set evs \<and>
                 Call Disconnect \<notin> set evs)
          | Pending \<Rightarrow> run i (w0 # w1 # ws, tr) = (Pending, s))"
proof -
  have run: "run i (w0 # w1 # ws, tr) =
      bind (enable_embedded_timestamp True) (\<lambda>_. try_finally (try_body i) cleanup)
        (ws, tr @ [Call BusManager, Call Camera])"
    using assms(1,2) by (simp add: run_def bind_def ext_Cons)
  from emitsD [OF emits_enable_embedded_timestamp assms(3)] obtain evs where
    "snd s = (tr @ [Call BusManager, Call Camera]) @ evs"
    "set evs \<subseteq> {Call GetEmbeddedImageInfo, Call (SetEmbeddedImageInfo True),
      Print TimeStampEnabled, Print TimeStampDisabled}"
    by auto
  then have "\<exists>evs. snd s = tr @ [Call BusManager, Call Camera] @ evs \<and>
      Call (Connect i) \<notin> set evs \<and> Call StopCapture \<notin> set evs \<and> Call Disconnect \<notin> set evs"
    by (intro exI [of _ evs]) auto
  with run assms(3) show ?thesis
    by (cases r) (simp_all add: bind_def)
qed

theorem timestamp_call_outside_try_witness:
  "run 0 ([quiet, quiet,
           quiet\<lparr>raises := (\<lambda>c. if c = GetEmbeddedImageInfo then Some Fc2error else None)\<rparr>,
           quiet, quiet, quiet], []) =
   (Exc Fc2error,
    ([quiet, quiet, quiet], [Call BusManager, Call Camera, Call GetEmbeddedImageInfo]))"
  using timestamp_call_outside_try
    [of quiet quiet
        "[quiet\<lparr>raises := (\<lambda>c. if c = GetEmbeddedImageInfo then Some Fc2error else None)\<rparr>,
          quiet, quiet, quiet]" "[]" "Exc Fc2error"
        "([quiet, quiet, quiet], [Call BusManager, Call Camera, Call GetEmbeddedImageInfo])" 0]
  by (simp add: quiet_def enable_embedded_timestamp_def bind_def ext_val_Cons)

section \<open>The loop and the cleanup, step by step\<close>

lemma try_finally_shutdown:
  "try_finally m cleanup s =
     (case m s of (Pending, s') \<Rightarrow> (Pending, s') | (r, s') \<Rightarrow> shutdown r s')"
  by (simp add: try_finally_def shutdown_def split: prod.splits res.splits)

lemma worker_loop_shutdown:
  "capture_loop i s = (r, s') \<Longrightarrow> r \<noteq> Pending \<Longrightarrow> worker_loop i s = shutdown r s'"
  by (cases r) (simp_all add: worker_loop_def try_finally_shutdown)

lemma shutdown_Nil: "r \<noteq> Pending \<Longrightarrow> shutdown r ([], tr) = (Pending, ([], tr))"
  by (cases r) (simp_all add: shutdown_def try_finally_def cleanup_def bind_def ext_Nil)

lemma shutdown_Cons:
  "r \<noteq> Pending \<Longrightarrow>
   shutdown r (w1 # ws, tr) =
     (case raises w1 StopCapture of
        Some e \<Rightarrow> (Exc e, (ws, tr @ [Call StopCapture]))
      | None \<Rightarrow>
          (case ws of
             [] \<Rightarrow> (Pending, ([], tr @ [Call StopCapture]))
           | w2 # rest \<Rightarrow>
               (case raises w2 Disconnect of None \<Rightarrow> r | Some e \<Rightarrow> Exc e,
                (rest, tr @ [Call StopCapture, Call Disconnect]))))"
  by (cases r)
     (simp_all add: shutdown_def try_finally_def cleanup_def bind_def ext_Nil ext_Cons
        split: option.splits list.splits)

lemma capture_loop_stop:
  "stop_event_is_set s = (Val True, s1) \<Longrightarrow> capture_loop i s = (Val (), s1)"
  by (subst capture_loop.simps) simp

lemma capture_loop_step:
  "stop_event_is_set s = (Val False, s1) \<Longrightarrow>
   capture_loop i s =
     (case loop_body i s1 of
        (Val u, s2) \<Rightarrow> capture_loop i s2
      | (Exc e, s2) \<Rightarrow> (Exc e, s2)
      | (Pending, s2) \<Rightarrow> (Pending, s2))"
  by (subst capture_loop.simps) simp

lemma wait_at_barrier_Cons:
  "wait_at_barrier (w # ws, tr) =
     (case raises w (BarrierWait 5) of
        None \<Rightarrow> Val Proceed
      | Some e \<Rightarrow> if e = TimeoutError then Val Continue else Exc e,
      (ws, tr @ [Call (BarrierWait 5)]))"
  by (simp add: wait_at_barrier_def try_except_def bind_def ext_Cons return_def
        split: option.splits)

lemma retrieve_image_Fc2error:
  "raises w RetrieveBuffer = Some Fc2error \<Longrightarrow>
   retrieve_image i (w # ws, tr) =
     (Val (), (ws, tr @ [Call RetrieveBuffer, Print (CaptureError i Fc2error)]))"
  by (simp add: retrieve_image_def try_except_def bind_def ext_Cons print_def)

section \<open>Retrieval errors\<close>

lemma poll_first_read:
  "\<exists>evs. snd (snd (poll_for_trigger_ready (w # ws, tr))) =
     tr @ Call (ReadRegister SOFTWARE_TRIGGER) # evs"
proof -
  have "\<exists>evs. snd (snd (poll_for_trigger_ready (ws, tr0))) = tr0 @ evs" for tr0
    using emits_poll [of UNIV] unfolding emits_def by (metis UNIV_I snd_conv)
  from this [of "tr @ [Call (ReadRegister SOFTWARE_TRIGGER), Sleep (1 / 1000)]"]
  show ?thesis
    by (auto simp: poll_Cons split: option.splits)
qed

lemma loop_body_first_read:
  "\<exists>evs. snd (snd (loop_body i (w # ws, tr))) =
     tr @ Call (ReadRegister SOFTWARE_TRIGGER) # evs"
proof -
  obtain r1 s2 where p: "poll_for_trigger_ready (w # ws, tr) = (r1, s2)"
    by (cases "poll_for_trigger_ready (w # ws, tr)")
  with poll_first_read [of w ws tr] obtain evs1 where
    e1: "snd s2 = tr @ Call (ReadRegister SOFTWARE_TRIGGER) # evs1"
    by auto
  show ?thesis
  proof (cases r1)
    case (Val u)
    let ?K = "bind wait_at_barrier (\<lambda>flow.
       case flow of
         Continue \<Rightarrow> return ()
       | Proceed \<Rightarrow>
           bind (ext (WriteRegister SOFTWARE_TRIGGER FIRE_VALUE)) (\<lambda>_.
           retrieve_image i))"
    have "emits UNIV (retrieve_image i)"
      unfolding retrieve_image_def
      by (intro emits_try_except emits_bind emits_ext emits_print) simp_all
    then have "emits UNIV (case fl of Continue \<Rightarrow> return ()
          | Proceed \<Rightarrow> bind (ext (WriteRegister SOFTWARE_TRIGGER FIRE_VALUE))
              (\<lambda>_. retrieve_image i))" for fl
      by (cases fl) (simp_all add: emits_bind emits_ext emits_return)
    moreover have "emits UNIV wait_at_barrier"
      unfolding wait_at_barrier_def
      by (intro emits_try_except emits_bind emits_ext emits_return) simp
    ultimately have "emits UNIV ?K"
      by (intro emits_bind)
    then obtain evs2 where "snd (snd (?K s2)) = snd s2 @ evs2"
      unfolding emits_def by blast
    moreover have "loop_body i (w # ws, tr) = ?K s2"
      using p Val by (simp add: loop_body_def bind_def)
    ultimately show ?thesis
      using e1 by simp
  qed (use p e1 in \<open>simp_all add: loop_body_def bind_def\<close>)
qed

lemma capture_loop_next_cycle:
  assumes "\<not> stop_set w" and "raises w StopEventIsSet = None"
  shows "\<exists>evs. snd (snd (capture_loop i (w # w' # ws, tr))) =
           tr @ Call StopEventIsSet # Call (ReadRegister SOFTWARE_TRIGGER) # evs"
proof -
  have top: "stop_event_is_set (w # w' # ws, tr) = (Val False, (w' # ws, tr @ [Call StopEventIsSet]))"
    using assms by (simp add: stop_event_is_set_def ext_val_Cons)
  obtain r2 s2 where b: "loop_body i (w' # ws, tr @ [Call StopEventIsSet]) = (r2, s2)"
    by (cases "loop_body i (w' # ws, tr @ [Call StopEventIsSet])")
  with loop_body_first_read [of i w' ws "tr @ [Call StopEventIsSet]"] obtain evs1 where
    e1: "snd s2 = tr @ Call StopEventIsSet # Call (ReadRegister SOFTWARE_TRIGGER) # evs1"
    by auto
  show ?thesis
  proof (cases r2)
    case (Val u)
    obtain evs2 where "snd (snd (capture_loop i s2)) = snd s2 @ evs2"
      using emits_capture_loop [of i] unfolding emits_def by blast
    with top b Val e1 show ?thesis
      by (simp add: capture_loop_step)
  qed (use top b e1 in \<open>simp_all add: capture_loop_step\<close>)
qed

lemma capture_loop_quiet_cycle:
  "capture_loop i (quiet # quiet # quiet # quiet # quiet # quiet # ws, tr) =
   capture_loop i (ws, tr @ [Call StopEventIsSet, Call (ReadRegister SOFTWARE_TRIGGER),
      Call (BarrierWait 5), Call (WriteRegister SOFTWARE_TRIGGER FIRE_VALUE),
      Call RetrieveBuffer, Call GetTimeStamp, Print (Captured i)])"
  by (subst capture_loop_step
        [where ?s1.0 = "(quiet # quiet # quiet # quiet # quiet # ws, tr @ [Call StopEventIsSet])"])
     (simp_all add: stop_event_is_set_def ext_val_Cons loop_body_def bind_def poll_Cons
        wait_at_barrier_Cons retrieve_image_def try_except_def ext_Cons print_def quiet_def)

text \<open>
  C7. In a cycle whose \<^verbatim>\<open>retrieveBuffer\<close> raises \<^verbatim>\<open>Fc2error\<close>, the handler catches the
  error and prints it, the iteration completes, and the loop goes on from its top with the
  worlds that are left: cycle K+1 checks the stop event and, when it is clear, polls the
  register again. The loop ends there only when the stop event is set; it does not end
  because of the retrieval failure.
\<close>

theorem retrieve_error_continues:
  assumes "stop_event_is_set s = (Val False, s1)"
    and "poll_for_trigger_ready s1 = (Val (), s2)"
    and "wait_at_barrier s2 = (Val Proceed, s3)"
    and "ext (WriteRegister SOFTWARE_TRIGGER FIRE_VALUE) s3 = (Val (), (w # w' # w'' # ws, tr))"
    and "raises w RetrieveBuffer = Some Fc2error"
    and "raises w' StopEventIsSet = None"
  shows "retrieve_image i (w # w' # w'' # ws, tr) =
           (Val (), (w' # w'' # ws,
              tr @ [Call RetrieveBuffer, Print (CaptureError i Fc2error)])) \<and>
         loop_body i s1 =
           (Val (), (w' # w'' # ws,
              tr @ [Call RetrieveBuffer, Print (CaptureError i Fc2error)])) \<and>
         capture_loop i s =
           capture_loop i (w' # w'' # ws,
              tr @ [Call RetrieveBuffer, Print (CaptureError i Fc2error)]) \<and>
         (if stop_set w'
          then capture_loop i s =
                 (Val (), (w'' # ws,
                    tr @ [Call RetrieveBuffer, Print (CaptureError i Fc2error),
                          Call StopEventIsSet]))
          else capture_loop i s =
                 (case loop_body i (w'' # ws,
                         tr @ [Call RetrieveBuffer, Print (CaptureError i Fc2error),
                               Call StopEventIsSet]) of
                    (Val u, s4) \<Rightarrow> capture_loop i s4
                  | (Exc e, s4) \<Rightarrow> (Exc e, s4)
                  | (Pending, s4) \<Rightarrow> (Pending, s4)) \<and>
               (\<exists>evs. snd (snd (capture_loop i s)) =
                  tr @ [Call RetrieveBuffer, Print (CaptureError i Fc2error),
                        Call StopEventIsSet, Call (ReadRegister SOFTWARE_TRIGGER)] @ evs))"
proof -
  let ?tr = "tr @ [Call RetrieveBuffer, Print (CaptureError i Fc2error)]"
  have caught: "retrieve_image i (w # w' # w'' # ws, tr) = (Val (), (w' # w'' # ws, ?tr))"
    using assms(5) by (rule retrieve_image_Fc2error)
  have body: "loop_body i s1 = (Val (), (w' # w'' # ws, ?tr))"
    using assms(2-4) caught by (simp add: loop_body_def bind_def)
  with assms(1) have loop: "capture_loop i s = capture_loop i (w' # w'' # ws, ?tr)"
    by (simp add: capture_loop_step)
  have next_cycle: "if stop_set w'
      then capture_loop i (w' # w'' # ws, ?tr) = (Val (), (w'' # ws, ?tr @ [Call StopEventIsSet]))
      else \<exists>evs. snd (snd (capture_loop i (w' # w'' # ws, ?tr))) =
             ?tr @ Call StopEventIsSet # Call (ReadRegister SOFTWARE_TRIGGER) # evs"
  proof (cases "stop_set w'")
    case True
    have "stop_event_is_set (w' # w'' # ws, ?tr) = (Val True, (w'' # ws, ?tr @ [Call StopEventIsSet]))"
      using True assms(6) by (simp add: stop_event_is_set_def ext_val_Cons)
    then have "capture_loop i (w' # w'' # ws, ?tr) = (Val (), (w'' # ws, ?tr @ [Call StopEventIsSet]))"
      by (rule capture_loop_stop)
    with True show ?thesis by simp
  next
    case False
    with capture_loop_next_cycle [OF False assms(6), of i w'' ws ?tr] show ?thesis
      by simp
  qed
  show ?thesis
  proof (cases "stop_set w'")
    case True
    with caught body loop next_cycle show ?thesis by simp
  next
    case False
    with next_cycle obtain evs where
      "snd (snd (capture_loop i (w' # w'' # ws, ?tr))) =
         ?tr @ Call StopEventIsSet # Call (ReadRegister SOFTWARE_TRIGGER) # evs"
      by auto
    then have "\<exists>evs. snd (snd (capture_loop i s)) =
         tr @ [Call RetrieveBuffer, Print (CaptureError i Fc2error),
               Call StopEventIsSet, Call (ReadRegister SOFTWARE_TRIGGER)] @ evs"
      unfolding loop by (intro exI [of _ evs]) simp
    moreover have "stop_event_is_set (w' # w'' # ws, ?tr) =
        (Val False, (w'' # ws, ?tr @ [Call StopEventIsSet]))"
      using False assms(6) by (simp add: stop_event_is_set_def ext_val_Cons)
    then have "capture_loop i s =
        (case loop_body i (w'' # ws,
                tr @ [Call RetrieveBuffer, Print (CaptureError i Fc2error),
                      Call StopEventIsSet]) of
           (Val u, s4) \<Rightarrow> capture_loop i s4
         | (Exc e, s4) \<Rightarrow> (Exc e, s4)
         | (Pending, s4) \<Rightarrow> (Pending, s4))"
      unfolding loop by (simp add: capture_loop_step)
    ultimately show ?thesis
      using False caught body loop by simp
  qed
qed

theorem retrieve_error_continues_witness:
  "capture_loop 0
     ([quiet, quiet, quiet, quiet, retrieve_fails,
       quiet, quiet, quiet, quiet, quiet, quiet, stopped, quiet], []) =
   (Val (), ([quiet],
     [Call StopEventIsSet, Call (ReadRegister SOFTWARE_TRIGGER), Call (BarrierWait 5),
      Call (WriteRegister SOFTWARE_TRIGGER FIRE_VALUE), Call RetrieveBuffer,
      Print (CaptureError 0 Fc2error),
      Call StopEventIsSet, Call (ReadRegister SOFTWARE_TRIGGER), Call (BarrierWait 5),
      Call (WriteRegister SOFTWARE_TRIGGER FIRE_VALUE), Call RetrieveBuffer,
      Call GetTimeStamp, Print (Captured 0),
      Call StopEventIsSet]))"
proof -
  have top: "capture_loop 0 (stopped # ws, tr) = (Val (), (ws, tr @ [Call StopEventIsSet]))" for ws tr
    by (rule capture_loop_stop) (simp add: stop_event_is_set_def ext_val_Cons stopped_def quiet_def)
  from retrieve_error_continues
    [of "([quiet, quiet, quiet, quiet, retrieve_fails,
           quiet, quiet, quiet, quiet, quiet, quiet, stopped, quiet], [])"
        "([quiet, quiet, quiet, retrieve_fails,
           quiet, quiet, quiet, quiet, quiet, quiet, stopped, quiet], [Call StopEventIsSet])"
        "([quiet, quiet, retrieve_fails,
           quiet, quiet, quiet, quiet, quiet, quiet, stopped, quiet],
          [Call StopEventIsSet, Call (ReadRegister SOFTWARE_TRIGGER)])"
        "([quiet, retrieve_fails,
           quiet, quiet, quiet, quiet, quiet, quiet, stopped, quiet],
          [Call StopEventIsSet, Call (ReadRegister SOFTWARE_TRIGGER), Call (BarrierWait 5)])"
        retrieve_fails quiet quiet "[quiet, quiet, quiet, quiet, stopped, quiet]"
        "[Call StopEventIsSet, Call (ReadRegister SOFTWARE_TRIGGER), Call (BarrierWait 5),
          Call (WriteRegister SOFTWARE_TRIGGER FIRE_VALUE)]" 0]
  have "capture_loop 0
     ([quiet, quiet, quiet, quiet, retrieve_fails,
       quiet, quiet, quiet, quiet, quiet, quiet, stopped, quiet], []) =
     capture_loop 0 ([quiet, quiet, quiet, quiet, quiet, quiet, stopped, quiet],
       [Call StopEventIsSet, Call (ReadRegister SOFTWARE_TRIGGER), Call (BarrierWait 5),
        Call (WriteRegister SOFTWARE_TRIGGER FIRE_VALUE), Call RetrieveBuffer,
        Print (CaptureError 0 Fc2error)])"
    by (simp add: quiet_def retrieve_fails_def stop_event_is_set_def ext_val_Cons ext_Cons
          poll_Cons wait_at_barrier_Cons)
  then show ?thesis
    by (simp add: capture_loop_quiet_cycle top)
qed

section \<open>The fire command\<close>

lemma startup_quiet:
  "startup i (quiet # quiet # quiet # quiet # quiet # quiet # quiet # quiet # quiet # ws, tr) =
     (Val (), (ws, tr @ [Call BusManager, Call Camera, Call GetEmbeddedImageInfo,
        Call (SetEmbeddedImageInfo True), Print TimeStampEnabled,
        Call (GetCameraFromIndex i), Call (Connect i), Call GetTriggerMode,
        Call (SetTriggerMode True 7), Call StartCapture, Print (StandingBy i)]))"
  by (simp add: startup_def connect_and_configure_def enable_embedded_timestamp_def
        bind_def ext_Cons ext_val_Cons print_def quiet_def)

text \<open>
  C6 (as amended). The worker does not catch a failure of the fire command: an exception
  of \<^verbatim>\<open>writeRegister\<close> ends the loop at once, with no retrieve call and no line printed,
  and the worker runs its \<^verbatim>\<open>finally\<close> block: \<^verbatim>\<open>stopCapture\<close> and, \<^verbatim>\<open>stopCapture\<close>
  having returned, \<^verbatim>\<open>disconnect\<close>. When \<^verbatim>\<open>disconnect\<close> returns as well, the worker ends
  with the exception of the fire command.
\<close>

theorem fire_error_ends_loop:
  assumes "stop_event_is_set s = (Val False, s1)"
    and "poll_for_trigger_ready s1 = (Val (), s2)"
    and "wait_at_barrier s2 = (Val Proceed, (w # w1 # w2 # rest, tr))"
    and "raises w (WriteRegister SOFTWARE_TRIGGER FIRE_VALUE) = Some e"
    and "raises w1 StopCapture = None"
  shows "capture_loop i s =
           (Exc e, (w1 # w2 # rest, tr @ [Call (WriteRegister SOFTWARE_TRIGGER FIRE_VALUE)])) \<and>
         worker_loop i s =
           (case raises w2 Disconnect of None \<Rightarrow> Exc e | Some e' \<Rightarrow> Exc e',
            (rest, tr @ [Call (WriteRegister SOFTWARE_TRIGGER FIRE_VALUE),
                         Call StopCapture, Call Disconnect]))"
proof -
  have "capture_loop i s =
      (Exc e, (w1 # w2 # rest, tr @ [Call (WriteRegister SOFTWARE_TRIGGER FIRE_VALUE)]))"
    using assms(1-4) by (simp add: capture_loop_step loop_body_def bind_def ext_Cons)
  then show ?thesis
    using assms(5) by (simp add: worker_loop_shutdown shutdown_Cons)
qed

theorem fire_error_ends_loop_witness:
  "worker_loop 0 ([quiet, quiet, quiet, fire_fails, quiet, quiet, quiet], []) =
     (Exc Fc2error, ([quiet],
        [Call StopEventIsSet, Call (ReadRegister SOFTWARE_TRIGGER), Call (BarrierWait 5),
         Call (WriteRegister SOFTWARE_TRIGGER FIRE_VALUE), Call StopCapture, Call Disconnect]))"
  using fire_error_ends_loop
    [of "([quiet, quiet, quiet, fire_fails, quiet, quiet, quiet], [])"
        "([quiet, quiet, fire_fails, quiet, quiet, quiet], [Call StopEventIsSet])"
        "([quiet, fire_fails, quiet, quiet, quiet],
          [Call StopEventIsSet, Call (ReadRegister SOFTWARE_TRIGGER)])"
        fire_fails quiet quiet "[quiet]"
        "[Call StopEventIsSet, Call (ReadRegister SOFTWARE_TRIGGER), Call (BarrierWait 5)]"
        Fc2error 0]
  by (simp add: quiet_def fire_fails_def stop_event_is_set_def ext_val_Cons
        poll_Cons wait_at_barrier_Cons)

theorem fire_error_counterexample:
  "run 0 ([quiet, quiet, quiet, quiet, quiet, quiet, quiet, quiet, quiet,
           quiet, quiet, quiet, fire_fails, quiet, quiet, quiet], []) =
     (Exc Fc2error, ([quiet],
        [Call BusManager, Call Camera, Call GetEmbeddedImageInfo,
         Call (SetEmbeddedImageInfo True), Print TimeStampEnabled,
         Call (GetCameraFromIndex 0), Call (Connect 0), Call GetTriggerMode,
         Call (SetTriggerMode True 7), Call StartCapture, Print (StandingBy 0),
         Call StopEventIsSet, Call (ReadRegister SOFTWARE_TRIGGER), Call (BarrierWait 5),
         Call (WriteRegister SOFTWARE_TRIGGER FIRE_VALUE), Call StopCapture, Call Disconnect]))"
proof -
  have loop: "capture_loop 0 ([quiet, quiet, quiet, fire_fails, quiet, quiet, quiet], tr) =
      (Exc Fc2error, ([quiet, quiet, quiet],
         tr @ [Call StopEventIsSet, Call (ReadRegister SOFTWARE_TRIGGER), Call (BarrierWait 5),
               Call (WriteRegister SOFTWARE_TRIGGER FIRE_VALUE)]))" for tr
    by (subst capture_loop_step [where ?s1.0 = "([quiet, quiet, fire_fails, quiet, quiet, quiet], tr @ [Call StopEventIsSet])"])
       (simp_all add: quiet_def fire_fails_def stop_event_is_set_def ext_val_Cons ext_Cons
          loop_body_def bind_def poll_Cons wait_at_barrier_Cons)
  show ?thesis
    by (subst run_after_startup [OF startup_quiet])
       (simp add: worker_loop_shutdown [OF loop] shutdown_Cons, simp add: quiet_def)
qed

section \<open>The barrier wait\<close>

lemma barrier_error_ends_loop:
  assumes "stop_event_is_set s = (Val False, s1)"
    and "poll_for_trigger_ready s1 = (Val (), (w # ws, tr))"
    and "raises w (BarrierWait 5) = Some e" and "e \<noteq> TimeoutError"
  shows "capture_loop i s = (Exc e, (ws, tr @ [Call (BarrierWait 5)]))"
  using assms by (simp add: capture_loop_step loop_body_def bind_def wait_at_barrier_Cons)

lemma TimeoutError_continues:
  assumes "stop_event_is_set s = (Val False, s1)"
    and "poll_for_trigger_ready s1 = (Val (), (w # ws, tr))"
    and "raises w (BarrierWait 5) = Some TimeoutError"
  shows "capture_loop i s = capture_loop i (ws, tr @ [Call (BarrierWait 5)])"
  using assms
  by (simp add: capture_loop_step loop_body_def bind_def wait_at_barrier_Cons return_def)

text \<open>
  C2. The handler of the barrier wait catches \<^verbatim>\<open>multiprocessing.TimeoutError\<close> only.
  A wait of the standard library's barrier that times out raises
  \<^verbatim>\<open>BrokenBarrierError\<close>; the handler lets it pass, the loop ends and the worker shuts
  down.
\<close>

theorem barrier_timeout_ends_worker:
  "run 0 ([quiet, quiet, quiet, quiet, quiet, quiet, quiet, quiet, quiet,
           quiet, quiet, at_barrier False TimedOut quiet, quiet, quiet, quiet], []) =
     (Exc BrokenBarrierError, ([quiet],
        [Call BusManager, Call Camera, Call GetEmbeddedImageInfo,
         Call (SetEmbeddedImageInfo True), Print TimeStampEnabled,
         Call (GetCameraFromIndex 0), Call (Connect 0), Call GetTriggerMode,
         Call (SetTriggerMode True 7), Call StartCapture, Print (StandingBy 0),
         Call StopEventIsSet, Call (ReadRegister SOFTWARE_TRIGGER), Call (BarrierWait 5),
         Call StopCapture, Call Disconnect]))"
proof -
  have loop: "capture_loop 0 ([quiet, quiet, at_barrier False TimedOut quiet, quiet, quiet, quiet], tr) =
      (Exc BrokenBarrierError, ([quiet, quiet, quiet],
         tr @ [Call StopEventIsSet, Call (ReadRegister SOFTWARE_TRIGGER), Call (BarrierWait 5)]))" for tr
    using barrier_error_ends_loop
      [of "([quiet, quiet, at_barrier False TimedOut quiet, quiet, quiet, quiet], tr)"
          "([quiet, at_barrier False TimedOut quiet, quiet, quiet, quiet], tr @ [Call StopEventIsSet])"
          "at_barrier False TimedOut quiet" "[quiet, quiet, quiet]"
          "tr @ [Call StopEventIsSet, Call (ReadRegister SOFTWARE_TRIGGER)]" BrokenBarrierError 0]
    by (simp add: quiet_def at_barrier_def Barrier_wait_def stop_event_is_set_def
          ext_val_Cons poll_Cons)
  show ?thesis
    by (subst run_after_startup [OF startup_quiet])
       (simp add: worker_loop_shutdown [OF loop] shutdown_Cons, simp add: quiet_def)
qed

section \<open>The manager's start\<close>

lemma start_loop_processes:
  "processes (start_loop is m) =
     processes m @
     map (\<lambda>i. \<lparr>target = \<lparr>cam_index = i, barrier = mgr_barrier m, stop_event = mgr_stop_event m\<rparr>,
               started = True\<rparr>) is"
  by (induction "is" arbitrary: m) (simp_all add: Let_def)

lemma start_loop_fields:
  "num_cams (start_loop is m) = num_cams m \<and> mgr_barrier (start_loop is m) = mgr_barrier m \<and>
   mgr_stop_event (start_loop is m) = mgr_stop_event m"
  by (induction "is" arbitrary: m) (simp_all add: Let_def)

text \<open>
  C8. For every device count \<open>n\<close>, \<^verbatim>\<open>start\<close> on a freshly constructed manager spawns
  exactly \<open>n\<close> workers; their camera indices are \<open>0, \<dots>, n - 1\<close> in this order, every
  worker holds the manager's one barrier, constructed with \<open>n\<close> parties, and the manager's
  one stop event.
\<close>

theorem start_spawns_one_worker_per_device:
  "(case CameraManager_init n h0 of
      (m, h) \<Rightarrow>
        processes (start m) =
          map (\<lambda>i. \<lparr>target = \<lparr>cam_index = i, barrier = mgr_barrier m,
                               stop_event = mgr_stop_event m\<rparr>, started = True\<rparr>) [0..<n] \<and>
        length (processes (start m)) = n \<and>
        map (\<lambda>p. cam_index (target p)) (processes (start m)) = [0..<n] \<and>
        barriers h (mgr_barrier m) = Some \<lparr>parties = n, broken = False\<rparr> \<and>
        events h (mgr_stop_event m) = Some False \<and>
        mgr_barrier (start m) = mgr_barrier m \<and> mgr_stop_event (start m) = mgr_stop_event m)"
  by (simp add: CameraManager_init_def new_Barrier_def new_Event_def start_def
        start_loop_processes start_loop_fields comp_def map_idI)

section \<open>The stop signal\<close>

lemma worker_loop_stop:
  assumes "stop_set w" and "raises w StopEventIsSet = None" and "raises w1 StopCapture = None"
  shows "worker_loop i (w # w1 # w2 # rest, tr) =
           (case raises w2 Disconnect of None \<Rightarrow> Val () | Some e \<Rightarrow> Exc e,
            (rest, tr @ [Call StopEventIsSet, Call StopCapture, Call Disconnect]))"
proof -
  have "capture_loop i (w # w1 # w2 # rest, tr) =
      (Val (), (w1 # w2 # rest, tr @ [Call StopEventIsSet]))"
    using assms by (simp add: capture_loop_stop stop_event_is_set_def ext_val_Cons)
  then show ?thesis
    using assms(3) by (simp add: worker_loop_shutdown shutdown_Cons)
qed

lemma ignores_stopI:
  assumes "\<And>ws ws' tr. list_all2 agree ws ws' \<Longrightarrow>
     fst (m (ws, tr)) = fst (m (ws', tr)) \<and>
     snd (snd (m (ws, tr))) = snd (snd (m (ws', tr))) \<and>
     list_all2 agree (fst (snd (m (ws, tr)))) (fst (snd (m (ws', tr))))"
  shows "ignores_stop m"
  using assms unfolding ignores_stop_def by blast

lemma ignores_stopD:
  assumes "ignores_stop m" and "list_all2 agree ws ws'"
  shows "\<exists>r rs rs' t. m (ws, tr) = (r, (rs, t)) \<and> m (ws', tr) = (r, (rs', t)) \<and>
           list_all2 agree rs rs'"
proof -
  from assms have "fst (m (ws, tr)) = fst (m (ws', tr)) \<and>
     snd (snd (m (ws, tr))) = snd (snd (m (ws', tr))) \<and>
     list_all2 agree (fst (snd (m (ws, tr)))) (fst (snd (m (ws', tr))))"
    unfolding ignores_stop_def by blast
  then show ?thesis
    by (intro exI [of _ "fst (m (ws, tr))"] exI [of _ "fst (snd (m (ws, tr)))"]
          exI [of _ "fst (snd (m (ws', tr)))"] exI [of _ "snd (snd (m (ws, tr)))"])
       (simp add: prod_eq_iff)
qed

lemma ignores_stop_apply:
  assumes "ignores_stop m" and "list_all2 agree ws ws'"
  shows "fst (m (ws, tr)) = fst (m (ws', tr)) \<and>
         snd (snd (m (ws, tr))) = snd (snd (m (ws', tr)))"
  using assms unfolding ignores_stop_def by blast

lemma ignores_stop_return: "ignores_stop (return a)"
  by (rule ignores_stopI) (simp add: return_def)

lemma ignores_stop_print: "ignores_stop (print m)"
  by (rule ignores_stopI) (simp add: print_def)

lemma ignores_stop_ext_val:
  assumes "\<And>w w'. agree w w' \<Longrightarrow> f w = f w'"
  shows "ignores_stop (ext_val c f)"
proof (rule ignores_stopI)
  fix ws ws' :: "world list" and tr :: "event list"
  assume a: "list_all2 agree ws ws'"
  show "fst (ext_val c f (ws, tr)) = fst (ext_val c f (ws', tr)) \<and>
     snd (snd (ext_val c f (ws, tr))) = snd (snd (ext_val c f (ws', tr))) \<and>
     list_all2 agree (fst (snd (ext_val c f (ws, tr)))) (fst (snd (ext_val c f (ws', tr))))"
  proof (cases ws)
    case Nil
    with a show ?thesis by (simp add: ext_val_Nil)
  next
    case (Cons w rs)
    with a obtain w' rs' where ws': "ws' = w' # rs'" and ag: "agree w w'"
      and rest: "list_all2 agree rs rs'"
      by (auto simp: list_all2_Cons1)
    from ag have "raises w c = raises w' c"
      by (simp add: agree_def)
    with Cons ws' rest assms [OF ag] show ?thesis
      by (simp add: ext_val_Cons split: option.splits)
  qed
qed

lemma ignores_stop_ext: "ignores_stop (ext c)"
  unfolding ext_def by (rule ignores_stop_ext_val) simp

lemma ignores_stop_bind:
  assumes "ignores_stop m" and "\<And>a. ignores_stop (f a)"
  shows "ignores_stop (bind m f)"
proof (rule ignores_stopI)
  fix ws ws' :: "world list" and tr :: "event list"
  assume a: "list_all2 agree ws ws'"
  from ignores_stopD [OF assms(1) a, where tr = tr] obtain r rs rs' t where
    m1: "m (ws, tr) = (r, (rs, t))" and m2: "m (ws', tr) = (r, (rs', t))"
    and ag: "list_all2 agree rs rs'"
    by blast
  have "\<exists>r2 qs qs' t2. bind m f (ws, tr) = (r2, (qs, t2)) \<and>
      bind m f (ws', tr) = (r2, (qs', t2)) \<and> list_all2 agree qs qs'"
  proof (cases r)
    case (Val v)
    from ignores_stopD [OF assms(2) [of v] ag, where tr = t] obtain r2 qs qs' t2 where
      f1: "f v (rs, t) = (r2, (qs, t2))" and f2: "f v (rs', t) = (r2, (qs', t2))"
      and ag2: "list_all2 agree qs qs'"
      by blast
    have "bind m f (ws, tr) = (r2, (qs, t2))"
      unfolding bind_def m1 Val using f1 by simp
    moreover have "bind m f (ws', tr) = (r2, (qs', t2))"
      unfolding bind_def m2 Val using f2 by simp
    ultimately show ?thesis
      using ag2 by blast
  next
    case (Exc e)
    have "bind m f (ws, tr) = (Exc e, (rs, t))"
      unfolding bind_def m1 Exc by simp
    moreover have "bind m f (ws', tr) = (Exc e, (rs', t))"
      unfolding bind_def m2 Exc by simp
    ultimately show ?thesis
      using ag by blast
  next
    case Pending
    have "bind m f (ws, tr) = (Pending, (rs, t))"
      unfolding bind_def m1 Pending by simp
    moreover have "bind m f (ws', tr) = (Pending, (rs', t))"
      unfolding bind_def m2 Pending by simp
    ultimately show ?thesis
      using ag by blast
  qed
  then obtain r2 qs qs' t2 where "bind m f (ws, tr) = (r2, (qs, t2))"
    "bind m f (ws', tr) = (r2, (qs', t2))" "list_all2 agree qs qs'"
    by blast
  then show "fst (bind m f (ws, tr)) = fst (bind m f (ws', tr)) \<and>
     snd (snd (bind m f (ws, tr))) = snd (snd (bind m f (ws', tr))) \<and>
     list_all2 agree (fst (snd (bind m f (ws, tr)))) (fst (snd (bind m f (ws', tr))))"
    by simp
qed

lemma ignores_stop_try_except:
  assumes "ignores_stop m" and "\<And>e. ignores_stop (h e)"
  shows "ignores_stop (try_except m catches h)"
proof (rule ignores_stopI)
  fix ws ws' :: "world list" and tr :: "event list"
  assume a: "list_all2 agree ws ws'"
  from ignores_stopD [OF assms(1) a, where tr = tr] obtain r rs rs' t where
    m1: "m (ws, tr) = (r, (rs, t))" and m2: "m (ws', tr) = (r, (rs', t))"
    and ag: "list_all2 agree rs rs'"
    by blast
  have "\<exists>r2 qs qs' t2. try_except m catches h (ws, tr) = (r2, (qs, t2)) \<and>
      try_except m catches h (ws', tr) = (r2, (qs', t2)) \<and> list_all2 agree qs qs'"
  proof (cases "\<exists>e. r = Exc e \<and> catches e")
    case True
    then obtain e where r: "r = Exc e" and c: "catches e"
      by blast
    from ignores_stopD [OF assms(2) [of e] ag, where tr = t] obtain r2 qs qs' t2 where
      h1: "h e (rs, t) = (r2, (qs, t2))" and h2: "h e (rs', t) = (r2, (qs', t2))"
      and ag2: "list_all2 agree qs qs'"
      by blast
    have "try_except m catches h (ws, tr) = (r2, (qs, t2))"
      unfolding try_except_def m1 r using h1 c by simp
    moreover have "try_except m catches h (ws', tr) = (r2, (qs', t2))"
      unfolding try_except_def m2 r using h2 c by simp
    ultimately show ?thesis
      using ag2 by blast
  next
    case False
    have "try_except m catches h (ws, tr) = (r, (rs, t))"
      unfolding try_except_def m1 using False by (cases r) simp_all
    moreover have "try_except m catches h (ws', tr) = (r, (rs', t))"
      unfolding try_except_def m2 using False by (cases r) simp_all
    ultimately show ?thesis
      using ag by blast
  qed
  then obtain r2 qs qs' t2 where "try_except m catches h (ws, tr) = (r2, (qs, t2))"
    "try_except m catches h (ws', tr) = (r2, (qs', t2))" "list_all2 agree qs qs'"
    by blast
  then show "fst (try_except m catches h (ws, tr)) = fst (try_except m catches h (ws', tr)) \<and>
     snd (snd (try_except m catches h (ws, tr))) = snd (snd (try_except m catches h (ws', tr))) \<and>
     list_all2 agree (fst (snd (try_except m catches h (ws, tr))))
       (fst (snd (try_except m catches h (ws', tr))))"
    by simp
qed

lemma ignores_stop_poll: "ignores_stop poll_for_trigger_ready"
proof (rule ignores_stopI)
  fix ws ws' :: "world list" and tr :: "event list"
  assume "list_all2 agree ws ws'"
  then show "fst (poll_for_trigger_ready (ws, tr)) = fst (poll_for_trigger_ready (ws', tr)) \<and>
     snd (snd (poll_for_trigger_ready (ws, tr))) = snd (snd (poll_for_trigger_ready (ws', tr))) \<and>
     list_all2 agree (fst (snd (poll_for_trigger_ready (ws, tr))))
       (fst (snd (poll_for_trigger_ready (ws', tr))))"
  proof (induction ws ws' arbitrary: tr rule: list_all2_induct)
    case Nil
    show ?case by (simp add: poll_Nil)
  next
    case (Cons w rs w' rs')
    from Cons.hyps(1) have "raises w = raises w'" "register w = register w'"
      by (simp_all add: agree_def)
    with Cons.hyps(2) Cons.IH show ?case
      by (simp add: poll_Cons split: option.splits)
  qed
qed

lemma ignores_stop_retrieve_image: "ignores_stop (retrieve_image i)"
  unfolding retrieve_image_def
  by (intro ignores_stop_try_except ignores_stop_bind ignores_stop_ext ignores_stop_print)

lemma ignores_stop_loop_body: "ignores_stop (loop_body i)"
proof -
  have "ignores_stop (case fl of Continue \<Rightarrow> return ()
          | Proceed \<Rightarrow> bind (ext (WriteRegister SOFTWARE_TRIGGER FIRE_VALUE))
              (\<lambda>_. retrieve_image i))" for fl
  proof (cases fl)
    case Proceed
    have "ignores_stop (bind (ext (WriteRegister SOFTWARE_TRIGGER FIRE_VALUE))
              (\<lambda>_. retrieve_image i))"
      by (intro ignores_stop_bind ignores_stop_ext ignores_stop_retrieve_image)
    with Proceed show ?thesis by (simp only: flow.case)
  next
    case Continue
    with ignores_stop_return [of "()"] show ?thesis by (simp only: flow.case)
  qed
  then show ?thesis
    unfolding loop_body_def wait_at_barrier_def
    by (intro ignores_stop_bind ignores_stop_poll ignores_stop_try_except
          ignores_stop_ext ignores_stop_return)
qed

lemma ignores_stop_enable: "ignores_stop (enable_embedded_timestamp b)"
proof -
  have pr: "ignores_stop (if b then print TimeStampEnabled else print TimeStampDisabled)"
    by (cases b) (simp_all only: if_True if_False ignores_stop_print)
  have "ignores_stop (if available then
         bind (ext (SetEmbeddedImageInfo b)) (\<lambda>_.
           if b then print TimeStampEnabled else print TimeStampDisabled)
       else return ())" for available
  proof (cases available)
    case True
    have "ignores_stop (bind (ext (SetEmbeddedImageInfo b)) (\<lambda>_.
           if b then print TimeStampEnabled else print TimeStampDisabled))"
      by (intro ignores_stop_bind ignores_stop_ext pr)
    with True show ?thesis by (simp only: if_True)
  next
    case False
    with ignores_stop_return [of "()"] show ?thesis by (simp only: if_False)
  qed
  then show ?thesis
    unfolding enable_embedded_timestamp_def
    by (intro ignores_stop_bind ignores_stop_ext_val) (simp add: agree_def)
qed

lemma ignores_stop_startup: "ignores_stop (startup i)"
  unfolding startup_def connect_and_configure_def
  by (intro ignores_stop_bind ignores_stop_ext ignores_stop_enable ignores_stop_print)

lemma ignores_stop_cleanup: "ignores_stop cleanup"
  unfolding cleanup_def by (intro ignores_stop_bind ignores_stop_ext)

lemma capture_loop_top:
  assumes "raises w StopEventIsSet = None"
  shows "capture_loop i (w # ws, tr) =
           (if stop_set w then (Val (), (ws, tr @ [Call StopEventIsSet]))
            else case loop_body i (ws, tr @ [Call StopEventIsSet]) of
                   (Val u, s2) \<Rightarrow> capture_loop i s2
                 | (Exc e, s2) \<Rightarrow> (Exc e, s2)
                 | (Pending, s2) \<Rightarrow> (Pending, s2))"
  using assms
  by (subst capture_loop.simps) (simp add: stop_event_is_set_def ext_val_Cons)

lemma poll_ignores_stop:
  assumes "map register ws = map register ws'"
    and "map (\<lambda>w. raises w (ReadRegister SOFTWARE_TRIGGER)) ws =
         map (\<lambda>w. raises w (ReadRegister SOFTWARE_TRIGGER)) ws'"
  shows "fst (poll_for_trigger_ready (ws, tr)) = fst (poll_for_trigger_ready (ws', tr)) \<and>
         snd (snd (poll_for_trigger_ready (ws, tr))) = snd (snd (poll_for_trigger_ready (ws', tr))) \<and>
         length (fst (snd (poll_for_trigger_ready (ws, tr)))) =
           length (fst (snd (poll_for_trigger_ready (ws', tr))))"
  using assms
proof (induction ws arbitrary: ws' tr)
  case Nil
  then show ?case by simp
next
  case (Cons w ws)
  then obtain w' ws1 where ws': "ws' = w' # ws1"
    by (cases ws') auto
  with Cons.prems have eq: "register w = register w'"
      "raises w (ReadRegister SOFTWARE_TRIGGER) = raises w' (ReadRegister SOFTWARE_TRIGGER)"
    and rest: "map register ws = map register ws1"
      "map (\<lambda>w. raises w (ReadRegister SOFTWARE_TRIGGER)) ws =
       map (\<lambda>w. raises w (ReadRegister SOFTWARE_TRIGGER)) ws1"
    by auto
  from rest(1) have "length ws = length ws1"
    by (rule map_eq_imp_length_eq)
  with Cons.IH [OF rest] show ?case
    unfolding ws' by (simp add: poll_Cons eq split: option.splits)
qed

text \<open>
  C1 (as amended). The poller does not read the stop signal: its outcome, the calls and
  sleeps it adds to the trace and the number of worlds it consumes depend only on the
  register values and the errors of the register reads it meets, so with the stop signal
  set it goes on polling and sleeping until bit 31 is clear, and it has no cancelled
  outcome. The worker reads the stop signal only at the top of its loop: the code before
  the loop, the body of the loop (poll, barrier wait, fire, retrieve) and the
  \<^verbatim>\<open>finally\<close> block ignore it, and the loop is the check of the stop event followed,
  when it is clear, by the body and the loop again. When the worker reads the stop signal
  set at the top, it leaves the loop with no poll, fire or retrieve in that iteration and
  runs its \<^verbatim>\<open>finally\<close> block: \<^verbatim>\<open>stopCapture\<close> and, \<^verbatim>\<open>stopCapture\<close> having returned,
  \<^verbatim>\<open>disconnect\<close>.
\<close>

theorem stop_read_only_at_loop_top:
  "(map register ws = map register ws' \<and>
    map (\<lambda>w. raises w (ReadRegister SOFTWARE_TRIGGER)) ws =
      map (\<lambda>w. raises w (ReadRegister SOFTWARE_TRIGGER)) ws' \<longrightarrow>
      fst (poll_for_trigger_ready (ws, tr)) = fst (poll_for_trigger_ready (ws', tr)) \<and>
      snd (snd (poll_for_trigger_ready (ws, tr))) = snd (snd (poll_for_trigger_ready (ws', tr))) \<and>
      length (fst (snd (poll_for_trigger_ready (ws, tr)))) =
        length (fst (snd (poll_for_trigger_ready (ws', tr))))) \<and>
   ignores_stop (startup i) \<and> ignores_stop (loop_body i) \<and> ignores_stop cleanup \<and>
   (startup i s0 = (Val (), s) \<longrightarrow> run i s0 = try_finally (capture_loop i) cleanup s) \<and>
   (raises w StopEventIsSet = None \<longrightarrow>
      capture_loop i (w # vs, tr0) =
        (if stop_set w then (Val (), (vs, tr0 @ [Call StopEventIsSet]))
         else case loop_body i (vs, tr0 @ [Call StopEventIsSet]) of
                (Val u, s2) \<Rightarrow> capture_loop i s2
              | (Exc e, s2) \<Rightarrow> (Exc e, s2)
              | (Pending, s2) \<Rightarrow> (Pending, s2))) \<and>
   (stop_set w \<and> raises w StopEventIsSet = None \<and> raises w1 StopCapture = None \<longrightarrow>
      worker_loop i (w # w1 # w2 # rest, tr0) =
        (case raises w2 Disconnect of None \<Rightarrow> Val () | Some e \<Rightarrow> Exc e,
         (rest, tr0 @ [Call StopEventIsSet, Call StopCapture, Call Disconnect])))"
proof -
  have a: "map register ws = map register ws' \<and>
    map (\<lambda>w. raises w (ReadRegister SOFTWARE_TRIGGER)) ws =
      map (\<lambda>w. raises w (ReadRegister SOFTWARE_TRIGGER)) ws' \<longrightarrow>
      fst (poll_for_trigger_ready (ws, tr)) = fst (poll_for_trigger_ready (ws', tr)) \<and>
      snd (snd (poll_for_trigger_ready (ws, tr))) = snd (snd (poll_for_trigger_ready (ws', tr))) \<and>
      length (fst (snd (poll_for_trigger_ready (ws, tr)))) =
        length (fst (snd (poll_for_trigger_ready (ws', tr))))"
    using poll_ignores_stop [of ws ws' tr] by (intro impI) (elim conjE)
  have b: "raises w StopEventIsSet = None \<longrightarrow>
      capture_loop i (w # vs, tr0) =
        (if stop_set w then (Val (), (vs, tr0 @ [Call StopEventIsSet]))
         else case loop_body i (vs, tr0 @ [Call StopEventIsSet]) of
                (Val u, s2) \<Rightarrow> capture_loop i s2
              | (Exc e, s2) \<Rightarrow> (Exc e, s2)
              | (Pending, s2) \<Rightarrow> (Pending, s2))"
    by (intro impI) (rule capture_loop_top)
  have c: "stop_set w \<and> raises w StopEventIsSet = None \<and> raises w1 StopCapture = None \<longrightarrow>
      worker_loop i (w # w1 # w2 # rest, tr0) =
        (case raises w2 Disconnect of None \<Rightarrow> Val () | Some e \<Rightarrow> Exc e,
         (rest, tr0 @ [Call StopEventIsSet, Call StopCapture, Call Disconnect]))"
    using worker_loop_stop [of w w1 i w2 rest tr0] by (intro impI) (elim conjE)
  have d: "startup i s0 = (Val (), s) \<longrightarrow> run i s0 = try_finally (capture_loop i) cleanup s"
    using run_after_startup [of i s0 s] by (simp add: worker_loop_def)
  show ?thesis
    by (intro conjI)
       (rule a b c d ignores_stop_startup ignores_stop_loop_body ignores_stop_cleanup)+
qed

theorem stop_read_only_at_loop_top_witness:
  "fst (poll_for_trigger_ready ([stopped\<lparr>register := FIRE_VALUE\<rparr>, stopped], [])) =
     fst (poll_for_trigger_ready ([quiet\<lparr>register := FIRE_VALUE\<rparr>, quiet], [])) \<and>
   snd (snd (poll_for_trigger_ready ([stopped\<lparr>register := FIRE_VALUE\<rparr>, stopped], []))) =
     snd (snd (poll_for_trigger_ready ([quiet\<lparr>register := FIRE_VALUE\<rparr>, quiet], []))) \<and>
   fst (loop_body 0 ([stopped, stopped, stopped, stopped, stopped], [])) =
     fst (loop_body 0 ([quiet, quiet, quiet, quiet, quiet], [])) \<and>
   snd (snd (loop_body 0 ([stopped, stopped, stopped, stopped, stopped], []))) =
     snd (snd (loop_body 0 ([quiet, quiet, quiet, quiet, quiet], []))) \<and>
   run 0 ([quiet, quiet, quiet, quiet, quiet, quiet, quiet, quiet, quiet, stopped], []) =
     try_finally (capture_loop 0) cleanup
       ([stopped],
        [Call BusManager, Call Camera, Call GetEmbeddedImageInfo,
         Call (SetEmbeddedImageInfo True), Print TimeStampEnabled,
         Call (GetCameraFromIndex 0), Call (Connect 0), Call GetTriggerMode,
         Call (SetTriggerMode True 7), Call StartCapture, Print (StandingBy 0)]) \<and>
   capture_loop 0 ([stopped, quiet], []) = (Val (), ([quiet], [Call StopEventIsSet])) \<and>
   worker_loop 0 ([stopped, quiet, quiet, quiet], []) =
     (Val (), ([quiet], [Call StopEventIsSet, Call StopCapture, Call Disconnect]))"
proof -
  note t = stop_read_only_at_loop_top
    [of "[stopped\<lparr>register := FIRE_VALUE\<rparr>, stopped]"
        "[quiet\<lparr>register := FIRE_VALUE\<rparr>, quiet]" "[]" 0
        "([quiet, quiet, quiet, quiet, quiet, quiet, quiet, quiet, quiet, stopped], [])"
        "([stopped],
          [Call BusManager, Call Camera, Call GetEmbeddedImageInfo,
           Call (SetEmbeddedImageInfo True), Print TimeStampEnabled,
           Call (GetCameraFromIndex 0), Call (Connect 0), Call GetTriggerMode,
           Call (SetTriggerMode True 7), Call StartCapture, Print (StandingBy 0)])"
        stopped "[quiet]" "[]" quiet quiet "[quiet]"]
  have ag: "list_all2 agree [stopped, stopped, stopped, stopped, stopped]
      [quiet, quiet, quiet, quiet, quiet]"
    by (simp add: agree_def stopped_def)
  from t have ig: "ignores_stop (loop_body 0)"
    by (elim conjE)
  have body:
    "fst (loop_body 0 ([stopped, stopped, stopped, stopped, stopped], [])) =
       fst (loop_body 0 ([quiet, quiet, quiet, quiet, quiet], [])) \<and>
     snd (snd (loop_body 0 ([stopped, stopped, stopped, stopped, stopped], []))) =
       snd (snd (loop_body 0 ([quiet, quiet, quiet, quiet, quiet], [])))"
    using ignores_stop_apply [OF ig ag, of "[]"] by (elim conjE) (intro conjI)
  have eqs: "map register [stopped\<lparr>register := FIRE_VALUE\<rparr>, stopped] =
      map register [quiet\<lparr>register := FIRE_VALUE\<rparr>, quiet] \<and>
    map (\<lambda>w. raises w (ReadRegister SOFTWARE_TRIGGER)) [stopped\<lparr>register := FIRE_VALUE\<rparr>, stopped] =
      map (\<lambda>w. raises w (ReadRegister SOFTWARE_TRIGGER)) [quiet\<lparr>register := FIRE_VALUE\<rparr>, quiet]"
    by (simp add: stopped_def quiet_def)
  have st: "raises stopped StopEventIsSet = None" "stop_set stopped"
    "raises quiet StopCapture = None" "raises quiet Disconnect = None"
    by (simp_all add: stopped_def quiet_def)
  note p = t [THEN conjunct1, THEN mp, OF eqs]
  then have poll:
    "fst (poll_for_trigger_ready ([stopped\<lparr>register := FIRE_VALUE\<rparr>, stopped], [])) =
       fst (poll_for_trigger_ready ([quiet\<lparr>register := FIRE_VALUE\<rparr>, quiet], [])) \<and>
     snd (snd (poll_for_trigger_ready ([stopped\<lparr>register := FIRE_VALUE\<rparr>, stopped], []))) =
       snd (snd (poll_for_trigger_ready ([quiet\<lparr>register := FIRE_VALUE\<rparr>, quiet], [])))"
    by (elim conjE) (intro conjI)
  have su: "startup 0 ([quiet, quiet, quiet, quiet, quiet, quiet, quiet, quiet, quiet, stopped], []) =
      (Val (), ([stopped],
        [Call BusManager, Call Camera, Call GetEmbeddedImageInfo,
         Call (SetEmbeddedImageInfo True), Print TimeStampEnabled,
         Call (GetCameraFromIndex 0), Call (Connect 0), Call GetTriggerMode,
         Call (SetTriggerMode True 7), Call StartCapture, Print (StandingBy 0)]))"
    using startup_quiet [of 0 "[stopped]" "[]"] by simp
  note whole = t [THEN conjunct2, THEN conjunct2, THEN conjunct2, THEN conjunct2,
    THEN conjunct1, THEN mp, OF su]
  from t st have top: "capture_loop 0 ([stopped, quiet], []) = (Val (), ([quiet], [Call StopEventIsSet]))"
    by simp
  from t st have fin: "worker_loop 0 ([stopped, quiet, quiet, quiet], []) =
       (Val (), ([quiet], [Call StopEventIsSet, Call StopCapture, Call Disconnect]))"
    by simp
  from poll body whole top fin show ?thesis
    by (elim conjE) (intro conjI)
qed

theorem poller_ignores_stop_counterexample:
  "poll_for_trigger_ready ([stopped\<lparr>register := FIRE_VALUE\<rparr>, stopped], []) =
     (Val (), ([], [Call (ReadRegister SOFTWARE_TRIGGER), Sleep (1 / 1000),
                    Call (ReadRegister SOFTWARE_TRIGGER)])) \<and>
   run 0 ([quiet, quiet, quiet, quiet, quiet, quiet, quiet, quiet, quiet,
           quiet, stopped\<lparr>register := FIRE_VALUE\<rparr>, stopped, stopped, stopped, stopped,
           stopped, stopped, stopped, stopped, stopped], []) =
     (Val (), ([stopped],
        [Call BusManager, Call Camera, Call GetEmbeddedImageInfo,
         Call (SetEmbeddedImageInfo True), Print TimeStampEnabled,
         Call (GetCameraFromIndex 0), Call (Connect 0), Call GetTriggerMode,
         Call (SetTriggerMode True 7), Call StartCapture, Print (StandingBy 0),
         Call StopEventIsSet, Call (ReadRegister SOFTWARE_TRIGGER), Sleep (1 / 1000),
         Call (ReadRegister SOFTWARE_TRIGGER), Call (BarrierWait 5),
         Call (WriteRegister SOFTWARE_TRIGGER FIRE_VALUE), Call RetrieveBuffer,
         Call GetTimeStamp, Print (Captured 0),
         Call StopEventIsSet, Call StopCapture, Call Disconnect]))"
proof -
  have poll: "poll_for_trigger_ready (stopped\<lparr>register := FIRE_VALUE\<rparr> # stopped # ws, tr) =
     (Val (), (ws, tr @ [Call (ReadRegister SOFTWARE_TRIGGER), Sleep (1 / 1000),
                    Call (ReadRegister SOFTWARE_TRIGGER)]))" for ws tr
    by (simp add: poll_Cons stopped_def quiet_def FIRE_VALUE_def)
  have body: "loop_body 0 (stopped\<lparr>register := FIRE_VALUE\<rparr> # stopped # stopped # stopped #
        stopped # stopped # ws, tr) =
     (Val (), (ws, tr @ [Call (ReadRegister SOFTWARE_TRIGGER), Sleep (1 / 1000),
         Call (ReadRegister SOFTWARE_TRIGGER), Call (BarrierWait 5),
         Call (WriteRegister SOFTWARE_TRIGGER FIRE_VALUE), Call RetrieveBuffer,
         Call GetTimeStamp, Print (Captured 0)]))" for ws tr
    unfolding loop_body_def
    by (simp add: bind_def poll_Cons wait_at_barrier_Cons retrieve_image_def try_except_def
          ext_Cons print_def stopped_def quiet_def FIRE_VALUE_def)
  have top: "capture_loop 0 (stopped # ws, tr) = (Val (), (ws, tr @ [Call StopEventIsSet]))" for ws tr
    by (rule capture_loop_stop) (simp add: stop_event_is_set_def ext_val_Cons stopped_def quiet_def)
  have loop: "capture_loop 0 (quiet # stopped\<lparr>register := FIRE_VALUE\<rparr> # stopped # stopped #
        stopped # stopped # stopped # stopped # ws, tr) =
     (Val (), (ws, tr @ [Call StopEventIsSet, Call (ReadRegister SOFTWARE_TRIGGER), Sleep (1 / 1000),
         Call (ReadRegister SOFTWARE_TRIGGER), Call (BarrierWait 5),
         Call (WriteRegister SOFTWARE_TRIGGER FIRE_VALUE), Call RetrieveBuffer,
         Call GetTimeStamp, Print (Captured 0), Call StopEventIsSet]))" for ws tr
    by (subst capture_loop_step
          [where ?s1.0 = "(stopped\<lparr>register := FIRE_VALUE\<rparr> # stopped # stopped # stopped #
             stopped # stopped # stopped # ws, tr @ [Call StopEventIsSet])"])
       (simp_all add: stop_event_is_set_def ext_val_Cons quiet_def body top)
  have fin: "shutdown (Val ()) (stopped # stopped # ws, tr) =
      (Val (), (ws, tr @ [Call StopCapture, Call Disconnect]))" for ws tr
    by (simp add: shutdown_Cons stopped_def quiet_def)
  show ?thesis
    by (subst run_after_startup [OF startup_quiet])
       (simp add: poll [of "[]" "[]", simplified] worker_loop_shutdown [OF loop] fin)
qed

section \<open>The abort of the barrier\<close>


lemma signal_stop_sets: "Event_is_set (mgr_stop_event m) (signal_stop m h)"
  by (simp add: signal_stop_def Barrier_abort_def Event_set_def Event_is_set_def)


lemma session1_eq:
  "session1 =
     (\<lparr>num_cams = 1, mgr_barrier = 0, mgr_stop_event = 1,
        processes = [\<lparr>target = worker0, started = True\<rparr>]\<rparr>,
      \<lparr>barriers = [0 \<mapsto> \<lparr>parties = 1, broken = False\<rparr>], events = [1 \<mapsto> False], fresh = 2\<rparr>)"
  by (simp add: session1_def CameraManager_init_def new_Barrier_def new_Event_def
        empty_heap_def start_def worker0_def Let_def)



section \<open>Shutdown\<close>

lemma join_all_Some:
  "join_all xs = Some u \<Longrightarrow> x \<in> set xs \<Longrightarrow> fst x \<noteq> Pending"
  by (induction xs) (auto simp: join_def split: option.splits res.splits)

lemma stop_returns_lifetime:
  assumes "stop m env h = Some h'" and "k < length (processes m)"
  shows "fst (run (cam_index (target (processes m ! k))) (env k, [])) \<noteq> Pending"
proof -
  from assms(1) obtain u where j: "join_all (lifetimes m env) = Some u"
    by (auto simp: stop_def Let_def split: option.splits)
  have "lifetimes m env ! k = run (cam_index (target (processes m ! k))) (env k, [])"
    using assms(2) by (simp add: lifetimes_def nth_enumerate_eq)
  moreover have "lifetimes m env ! k \<in> set (lifetimes m env)"
    using assms(2) by (simp add: lifetimes_def)
  ultimately show ?thesis
    using join_all_Some [OF j] by metis
qed

lemma loop_calls_no_cleanup:
  assumes "capture_loop i s = (r, (ws, tr))"
  shows "\<exists>evs. tr = snd s @ evs \<and> Call StopCapture \<notin> set evs \<and> Call Disconnect \<notin> set evs"
proof -
  from emitsD [OF emits_capture_loop assms] obtain evs where
    "snd (ws, tr) = snd s @ evs" "set evs \<subseteq> loop_events i" .
  then show ?thesis
    by (intro exI [of _ evs]) (auto simp: loop_events_def)
qed

text \<open>
  C4 (as amended). However the loop of a worker ends, by the stop event or by an
  exception, the loop itself has called neither \<^verbatim>\<open>stopCapture\<close> nor \<^verbatim>\<open>disconnect\<close>, and
  the \<^verbatim>\<open>finally\<close> block then calls \<^verbatim>\<open>stopCapture\<close> once and, when that returns normally,
  \<^verbatim>\<open>disconnect\<close> once. The manager's \<^verbatim>\<open>stop\<close> returns only after every worker process
  has terminated.
\<close>

theorem cleanup_once_and_stop_joins:
  "(capture_loop i s = (r, (w1 # ws, tr)) \<and> r \<noteq> Pending \<longrightarrow>
      (\<exists>evs. tr = snd s @ evs \<and> Call StopCapture \<notin> set evs \<and> Call Disconnect \<notin> set evs) \<and>
      worker_loop i s =
        (case raises w1 StopCapture of
           Some e \<Rightarrow> (Exc e, (ws, tr @ [Call StopCapture]))
         | None \<Rightarrow>
             (case ws of
                [] \<Rightarrow> (Pending, ([], tr @ [Call StopCapture]))
              | w2 # rest \<Rightarrow>
                  (case raises w2 Disconnect of None \<Rightarrow> r | Some e \<Rightarrow> Exc e,
                   (rest, tr @ [Call StopCapture, Call Disconnect]))))) \<and>
   (stop m env h = Some h' \<and> k < length (processes m) \<longrightarrow>
      fst (run (cam_index (target (processes m ! k))) (env k, [])) \<noteq> Pending)"
  using loop_calls_no_cleanup [of i s r "w1 # ws" tr]
    worker_loop_shutdown [of i s r "(w1 # ws, tr)"] shutdown_Cons [of r w1 ws tr]
    stop_returns_lifetime [of m env h h' k]
  by auto

lemma run_clean_life:
  "run 0 (clean_life, []) =
     (Val (), ([],
        [Call BusManager, Call Camera, Call GetEmbeddedImageInfo,
         Call (SetEmbeddedImageInfo True), Print TimeStampEnabled,
         Call (GetCameraFromIndex 0), Call (Connect 0), Call GetTriggerMode,
         Call (SetTriggerMode True 7), Call StartCapture, Print (StandingBy 0),
         Call StopEventIsSet, Call StopCapture, Call Disconnect]))"
  unfolding clean_life_def
  by (subst run_after_startup [OF startup_quiet], subst worker_loop_stop)
     (simp_all add: stopped_def quiet_def)

lemma run_dirty_life:
  "run 0 (dirty_life, []) =
     (Exc Fc2error, ([quiet],
        [Call BusManager, Call Camera, Call GetEmbeddedImageInfo,
         Call (SetEmbeddedImageInfo True), Print TimeStampEnabled,
         Call (GetCameraFromIndex 0), Call (Connect 0), Call GetTriggerMode,
         Call (SetTriggerMode True 7), Call StartCapture, Print (StandingBy 0),
         Call StopEventIsSet, Call StopCapture]))"
proof -
  have loop: "capture_loop 0 ([stopped, stop_capture_fails, quiet], tr) =
      (Val (), ([stop_capture_fails, quiet], tr @ [Call StopEventIsSet]))" for tr
    by (rule capture_loop_stop)
       (simp add: stop_event_is_set_def ext_val_Cons stopped_def quiet_def)
  show ?thesis
    unfolding dirty_life_def
    by (subst run_after_startup [OF startup_quiet])
       (simp add: worker_loop_shutdown [OF loop], simp add: shutdown_Cons stop_capture_fails_def)
qed

theorem cleanup_once_and_stop_joins_witness:
  "worker_loop 0 ([stopped, quiet, quiet, quiet], []) =
     (Val (), ([quiet], [Call StopEventIsSet, Call StopCapture, Call Disconnect])) \<and>
   stop (fst session1) (\<lambda>k. clean_life) (snd session1) =
     Some (signal_stop (fst session1) (snd session1)) \<and>
   fst (run 0 (clean_life, [])) \<noteq> Pending"
proof -
  have loop: "capture_loop 0 ([stopped, quiet, quiet, quiet], []) =
      (Val (), (quiet # [quiet, quiet], [Call StopEventIsSet]))"
    by (rule capture_loop_stop [THEN trans])
       (simp_all add: stop_event_is_set_def ext_val_Cons stopped_def quiet_def)
  have stop: "stop (fst session1) (\<lambda>k. clean_life) (snd session1) =
      Some (signal_stop (fst session1) (snd session1))"
    by (simp add: stop_def lifetimes_def session1_eq worker0_def enumerate_simps
          run_clean_life join_def)
  from cleanup_once_and_stop_joins
    [of 0 "([stopped, quiet, quiet, quiet], [])" "Val ()" quiet "[quiet, quiet]"
        "[Call StopEventIsSet]" "fst session1" "\<lambda>k. clean_life" "snd session1"
        "signal_stop (fst session1) (snd session1)" 0]
    loop stop
  show ?thesis
    by (simp add: session1_eq worker0_def) (simp add: quiet_def)
qed

theorem stop_returns_without_disconnect_counterexample:
  "run 0 (dirty_life, []) =
     (Exc Fc2error, ([quiet],
        [Call BusManager, Call Camera, Call GetEmbeddedImageInfo,
         Call (SetEmbeddedImageInfo True), Print TimeStampEnabled,
         Call (GetCameraFromIndex 0), Call (Connect 0), Call GetTriggerMode,
         Call (SetTriggerMode True 7), Call StartCapture, Print (StandingBy 0),
         Call StopEventIsSet, Call StopCapture])) \<and>
   stop (fst session1) (\<lambda>k. dirty_life) (snd session1) =
     Some (signal_stop (fst session1) (snd session1))"
  by (simp add: run_dirty_life stop_def lifetimes_def session1_eq worker0_def join_def)

end
